theory Spec2Isabelle
  imports Complex_Main "HOL-Library.Char_ord" "HOL-Library.List_Lexorder"
begin

section \<open>Strings\<close>

text \<open>
  A JavaScript string is modelled as a \<^typ>\<open>string\<close>: a list of code units below 256
  (ASCII and Latin-1 text). The library functions of the language that the commands use
  (\<open>toLowerCase\<close>, \<open>trim\<close>, \<open>split\<close>, \<open>join\<close>, \<open>match\<close>) are written out on
  that type.
\<close>

definition toLowerCase_char :: "char \<Rightarrow> char" where
  "toLowerCase_char c =
     (let n = (of_char c :: nat)
      in if (65 \<le> n \<and> n \<le> 90) \<or> (192 \<le> n \<and> n \<le> 222 \<and> n \<noteq> 215)
         then char_of (n + 32) else c)"

definition toLowerCase :: "string \<Rightarrow> string" where
  "toLowerCase s = map toLowerCase_char s"

text \<open>The white space and line terminators that \<open>trim\<close> strips, below code 256.\<close>

definition isWhiteSpace :: "char \<Rightarrow> bool" where
  "isWhiteSpace c = ((of_char c :: nat) \<in> {9, 10, 11, 12, 13, 32, 160})"

definition trim :: "string \<Rightarrow> string" where
  "trim s = rev (dropWhile isWhiteSpace (rev (dropWhile isWhiteSpace s)))"

text \<open>\<open>content.split(/\r?\n/)\<close>: a line ends at a line feed, which takes one carriage
  return before it along.\<close>

fun splitLines :: "string \<Rightarrow> string list" where
  "splitLines [] = [[]]"
| "splitLines (c # cs) =
     (if c = CHR 0x0A then [] # splitLines cs
      else (case cs of
              d # ds \<Rightarrow>
                (if c = CHR 0x0D \<and> d = CHR 0x0A then [] # splitLines ds
                 else (case splitLines cs of [] \<Rightarrow> [[c]] | l # ls \<Rightarrow> (c # l) # ls))
            | [] \<Rightarrow> [[c]]))"

text \<open>\<open>lines.join('\n')\<close>\<close>

fun joinLines :: "string list \<Rightarrow> string" where
  "joinLines [] = []"
| "joinLines [l] = l"
| "joinLines (l # ls) = l @ CHR 0x0A # joinLines ls"

text \<open>\<open>xs.slice(start, end)\<close> for \<open>0 \<le> start\<close> and \<open>0 \<le> end\<close>.\<close>

definition slice :: "nat \<Rightarrow> nat \<Rightarrow> 'a list \<Rightarrow> 'a list" where
  "slice start endExclusive xs = take (endExclusive - start) (drop start xs)"

text \<open>The character class \<open>[a-z0-9]\<close>.\<close>

definition isAlnum :: "char \<Rightarrow> bool" where
  "isAlnum c =
     (let n = (of_char c :: nat) in (97 \<le> n \<and> n \<le> 122) \<or> (48 \<le> n \<and> n \<le> 57))"

text \<open>\<open>value.match(/[a-z0-9]+/g) ?? []\<close>: the maximal runs of the class, left to right.\<close>

function alnumRuns :: "string \<Rightarrow> string list" where
  "alnumRuns [] = []"
| "alnumRuns (c # cs) =
     (if isAlnum c then takeWhile isAlnum (c # cs) # alnumRuns (dropWhile isAlnum cs)
      else alnumRuns cs)"
  by pat_completeness auto
termination
  by (relation "measure length") (auto simp: length_dropWhile_le less_Suc_eq_le)

definition tokenize :: "string \<Rightarrow> string list" where
  "tokenize v = filter (\<lambda>token. length token \<ge> 2) (alnumRuns (toLowerCase v))"

section \<open>Chunks\<close>

record Chunk =
  docPath :: string
  accession :: "string option"
  lineStart :: nat
  lineEnd :: nat
  chunkText :: string
  tokenCount :: nat
  termFrequency :: "string \<rightharpoonup> nat"

text \<open>\<open>frequency.get(token) ?? 0\<close>\<close>

definition getOr0 :: "(string \<rightharpoonup> nat) \<Rightarrow> string \<Rightarrow> nat" where
  "getOr0 m k = (case m k of None \<Rightarrow> 0 | Some n \<Rightarrow> n)"

definition buildTermFrequency :: "string list \<Rightarrow> (string \<rightharpoonup> nat)" where
  "buildTermFrequency tokens =
     foldl (\<lambda>frequency token. frequency(token \<mapsto> getOr0 frequency token + 1)) Map.empty tokens"

definition isDigit :: "char \<Rightarrow> bool" where
  "isDigit c = (let n = (of_char c :: nat) in 48 \<le> n \<and> n \<le> 57)"

text \<open>The pattern \<open>\d{10}-\d{2}-\d{6}\<close> at the head of a string.\<close>

definition accessionAtHead :: "string \<Rightarrow> bool" where
  "accessionAtHead s =
     (length s \<ge> 20 \<and> list_all isDigit (take 10 s) \<and> s ! 10 = CHR ''-''
      \<and> list_all isDigit (slice 11 13 s) \<and> s ! 13 = CHR ''-''
      \<and> list_all isDigit (slice 14 20 s))"

fun extractAccession :: "string \<Rightarrow> string option" where
  "extractAccession [] = None"
| "extractAccession (c # cs) =
     (if accessionAtHead (c # cs) then Some (take 20 (c # cs)) else extractAccession cs)"

text \<open>
  The loop of \<open>chunkDocument\<close>, from line index \<open>lineIdx\<close> on; the chunks pushed from
  there are returned in order. \<open>chunkLines\<close> and \<open>chunkOverlap\<close> are natural numbers
  (the command line accepts a positive and a non-negative integer), and
  \<open>Math.max(1, chunkLines - chunkOverlap)\<close> is computed on the integers.
\<close>

definition stepOf :: "nat \<Rightarrow> nat \<Rightarrow> nat" where
  "stepOf chunkLines chunkOverlap = nat (max 1 (int chunkLines - int chunkOverlap))"

definition mkChunk :: "string \<Rightarrow> string option \<Rightarrow> nat \<Rightarrow> nat \<Rightarrow> string \<Rightarrow> Chunk" where
  "mkChunk p acc start endExclusive txt =
     (let tokens = tokenize txt
      in \<lparr> docPath = p, accession = acc, lineStart = start + 1, lineEnd = endExclusive,
           chunkText = txt, tokenCount = length tokens,
           termFrequency = buildTermFrequency tokens \<rparr>)"

function chunkLoop ::
  "string \<Rightarrow> string option \<Rightarrow> string list \<Rightarrow> nat \<Rightarrow> nat \<Rightarrow> nat \<Rightarrow> Chunk list" where
  "chunkLoop p acc lines chunkLines chunkOverlap lineIdx =
     (if lineIdx < length lines then
        (let start = lineIdx;
             endExclusive = min (length lines) (start + chunkLines);
             txt = trim (joinLines (slice start endExclusive lines))
         in if length txt = 0 then
              (if endExclusive \<ge> length lines then []
               else chunkLoop p acc lines chunkLines chunkOverlap
                      (lineIdx + stepOf chunkLines chunkOverlap))
            else
              mkChunk p acc start endExclusive txt #
              (if endExclusive \<ge> length lines then []
               else chunkLoop p acc lines chunkLines chunkOverlap
                      (lineIdx + stepOf chunkLines chunkOverlap)))
      else [])"
  by pat_completeness auto
termination
  by (relation "measure (\<lambda>(p, acc, lines, chunkLines, chunkOverlap, lineIdx).
        length lines - lineIdx)") (auto simp: stepOf_def)

definition chunkDocument :: "string \<Rightarrow> string \<Rightarrow> nat \<Rightarrow> nat \<Rightarrow> Chunk list" where
  "chunkDocument p content chunkLines chunkOverlap =
     chunkLoop p (extractAccession p) (splitLines content) chunkLines chunkOverlap 0"

section \<open>Query terms\<close>

definition QUERY_STOPWORDS :: "string set" where
  "QUERY_STOPWORDS = set
     [''a'', ''an'', ''and'', ''are'', ''as'', ''at'', ''be'', ''by'', ''for'', ''from'', ''how'',
      ''in'', ''into'', ''is'', ''it'', ''its'', ''of'', ''on'', ''or'', ''that'', ''the'',
      ''their'', ''there'', ''these'', ''they'', ''this'', ''to'', ''was'', ''were'', ''what'',
      ''when'', ''where'', ''which'', ''who'', ''why'', ''with'']"

text \<open>\<open>[...new Set(tokens)]\<close>: a set keeps its elements in insertion order, so the first
  occurrence of every token stays, in order.\<close>

definition uniqueTokens :: "string list \<Rightarrow> string list" where
  "uniqueTokens tokens = foldl (\<lambda>seen t. if t \<in> set seen then seen else seen @ [t]) [] tokens"

definition buildQueryTerms :: "string \<Rightarrow> string list" where
  "buildQueryTerms query =
     (let rawTokens = tokenize query;
          filtered = filter (\<lambda>token. token \<notin> QUERY_STOPWORDS) rawTokens;
          terms = (if length filtered > 0 then filtered else rawTokens)
      in uniqueTokens terms)"

fun adjacentPairs :: "string list \<Rightarrow> string list" where
  "adjacentPairs (a # b # rest) = (a @ '' '' @ b) # adjacentPairs (b # rest)"
| "adjacentPairs _ = []"

definition buildQueryBigrams :: "string list \<Rightarrow> string list" where
  "buildQueryBigrams queryTerms = uniqueTokens (adjacentPairs queryTerms)"

definition countTermHits :: "string list \<Rightarrow> (string \<rightharpoonup> nat) \<Rightarrow> nat" where
  "countTermHits queryTerms tf =
     foldl (\<lambda>hits term. hits + (if getOr0 tf term > 0 then 1 else 0)) 0 queryTerms"

text \<open>\<open>text.includes(pattern)\<close> (\<open>includes\<close> is a keyword of the theory language)\<close>

fun str_includes :: "string \<Rightarrow> string \<Rightarrow> bool" where
  "str_includes [] pat = (pat = [])"
| "str_includes (c # cs) pat = (take (length pat) (c # cs) = pat \<or> str_includes cs pat)"

definition countBigramHits :: "string \<Rightarrow> string list \<Rightarrow> nat" where
  "countBigramHits ctext queryBigrams =
     (if length queryBigrams = 0 then 0
      else (let txt = toLowerCase ctext
            in foldl (\<lambda>hits bigram. hits + (if str_includes txt bigram then 1 else 0)) 0 queryBigrams))"

text \<open>The cover-page patterns are literal phrases matched without regard to case.\<close>

definition COVER_BOILERPLATE_PATTERNS :: "string list" where
  "COVER_BOILERPLATE_PATTERNS =
     [''securities registered pursuant to section 12(b)'',
      ''indicate by check mark'',
      ''commission file number'',
      ''for the quarterly period ended'',
      ''for the fiscal year ended'']"

definition looksLikeCoverBoilerplate :: "Chunk \<Rightarrow> bool" where
  "looksLikeCoverBoilerplate chunk =
     (if lineStart chunk > 140 then False
      else list_ex (\<lambda>pattern. str_includes (toLowerCase (chunkText chunk)) pattern)
             COVER_BOILERPLATE_PATTERNS)"

section \<open>Scores\<close>

text \<open>
  Scores are JavaScript numbers; they are modelled as real numbers, so the rounding of
  floating-point arithmetic is not part of the model.
\<close>

definition bm25Score :: "string list \<Rightarrow> Chunk \<Rightarrow> (string \<rightharpoonup> nat) \<Rightarrow> nat \<Rightarrow> real \<Rightarrow> real" where
  "bm25Score queryTerms chunk docFrequencyByTerm totalChunkCount averageChunkLength =
     (let k1 = (1.2 :: real); b = (0.75 :: real)
      in foldl (\<lambda>score term.
           (let tf = getOr0 (termFrequency chunk) term
            in if tf = 0 then score
               else
                 (let df = getOr0 docFrequencyByTerm term;
                      idf = ln (1 + (real totalChunkCount - real df + 0.5) / (real df + 0.5));
                      normalizedLength =
                        (if averageChunkLength > 0
                         then real (tokenCount chunk) / averageChunkLength else 1);
                      denominator = real tf + k1 * (1 - b + b * normalizedLength);
                      termScore = idf * ((real tf * (k1 + 1)) / denominator)
                  in score + termScore))) 0 queryTerms)"

definition adjustedChunkScore :: "Chunk \<Rightarrow> real \<Rightarrow> string list \<Rightarrow> string list \<Rightarrow> real" where
  "adjustedChunkScore chunk baseScore queryTerms queryBigrams =
     (if baseScore \<le> 0 then 0
      else
        (let termHits = countTermHits queryTerms (termFrequency chunk)
         in if length queryTerms \<ge> 3 \<and> termHits < 2 then 0
            else
              (let coverage = real termHits / real (max 1 (length queryTerms));
                   bigramHits = countBigramHits (chunkText chunk) queryBigrams;
                   m1 = (if coverage \<ge> 1 then 1.25
                         else if coverage \<ge> 0.7 then 1.15
                         else if coverage \<ge> 0.5 then 1.08
                         else if length queryTerms \<ge> 3 \<and> coverage \<le> 0.25 then 0.8
                         else 1);
                   m2 = (if bigramHits > 0
                         then m1 * (1 + min 0.24 (real bigramHits * 0.08)) else m1);
                   m3 = (if looksLikeCoverBoilerplate chunk then m2 * 0.45 else m2)
               in baseScore * m3)))"

text \<open>The corpus statistics of one query evaluation.\<close>

definition docFrequencyByTerm :: "string list \<Rightarrow> Chunk list \<Rightarrow> (string \<rightharpoonup> nat)" where
  "docFrequencyByTerm queryTerms allChunks =
     foldl (\<lambda>m term.
         m(term \<mapsto> foldl (\<lambda>count chunk.
                          if getOr0 (termFrequency chunk) term > 0 then count + 1 else count)
                        0 allChunks))
       Map.empty queryTerms"

definition averageChunkLength :: "Chunk list \<Rightarrow> real" where
  "averageChunkLength allChunks =
     real (foldl (\<lambda>sum chunk. sum + tokenCount chunk) 0 allChunks) /
     real (max (length allChunks) 1)"

text \<open>\<open>docs.flatMap((doc) => doc.chunks)\<close> over the documents read, each a path with
  its content: document order, then line order.\<close>

definition collectChunks :: "(string \<times> string) list \<Rightarrow> nat \<Rightarrow> nat \<Rightarrow> Chunk list" where
  "collectChunks docs chunkLines chunkOverlap =
     concat (map (\<lambda>(p, content). chunkDocument p content chunkLines chunkOverlap) docs)"

section \<open>The score as the specification writes it\<close>

text \<open>The inverse document frequency and the contribution of one term, following the
  words of the specification, to be compared with \<open>bm25Score\<close>.\<close>

definition spec_idf :: "nat \<Rightarrow> nat \<Rightarrow> real" where
  "spec_idf N df = ln (1 + (real N - real df + 0.5) / (real df + 0.5))"

definition spec_term_contribution :: "real \<Rightarrow> nat \<Rightarrow> real \<Rightarrow> real \<Rightarrow> real" where
  "spec_term_contribution idf tf chunk_tokens avg_tokens =
     idf * (real tf * (1.2 + 1)) / (real tf + 1.2 * (1 - 0.75 + 0.75 * (chunk_tokens / avg_tokens)))"

section \<open>Errors and files\<close>

datatype ErrorCode =
  VALIDATION_ERROR | DOCS_REQUIRED | IDENTITY_REQUIRED | RATE_LIMITED | NOT_FOUND
  | NETWORK_ERROR | PARSE_ERROR | INTERNAL_ERROR

text \<open>A thrown value: a \<open>CLIError\<close> with its code and message, or any other error
  (an error of the run-time system, such as a failed write).\<close>

datatype error = CLIError ErrorCode string | OtherError string

text \<open>
  What the file system holds at a path: nothing (\<open>ENOENT\<close>), something that cannot be
  inspected (\<open>stat\<close> fails with the given message), a directory, a regular file that
  cannot be read (with the message of the failure), or a regular file with its content.
\<close>

datatype 'c entry = Absent | Inaccessible string | Directory | Unreadable string | Regular 'c

definition no_files :: "string \<Rightarrow> 'c entry" where
  "no_files p = Absent"

definition ensureReadableTextFile :: "(string \<Rightarrow> string entry) \<Rightarrow> string \<Rightarrow> error + string" where
  "ensureReadableTextFile fs filePath =
     (case fs filePath of
        Absent \<Rightarrow> Inl (CLIError NOT_FOUND (''Document not found: '' @ filePath))
      | Inaccessible msg \<Rightarrow>
          Inl (CLIError VALIDATION_ERROR (''Unable to stat document '' @ filePath @ '': '' @ msg))
      | Directory \<Rightarrow> Inl (CLIError VALIDATION_ERROR (''Path is not a file: '' @ filePath))
      | Unreadable msg \<Rightarrow>
          Inl (CLIError VALIDATION_ERROR (''Unable to read document '' @ filePath @ '': '' @ msg))
      | Regular content \<Rightarrow>
          (if CHR 0x00 \<in> set content
           then Inl (CLIError VALIDATION_ERROR (''File appears to be binary: '' @ filePath))
           else Inr content))"

section \<open>Lexical search\<close>

text \<open>\<open>Buffer.byteLength(content, 'utf8')\<close>: a code unit below 128 takes one byte,
  one from 128 to 255 two.\<close>

definition byteLength :: "string \<Rightarrow> nat" where
  "byteLength s = sum_list (map (\<lambda>c. if (of_char c :: nat) < 128 then 1 else 2) s)"

record LoadedDoc =
  d_path :: string
  d_bytes :: nat
  d_lineCount :: nat
  d_chunks :: "Chunk list"

definition loadDoc :: "nat \<Rightarrow> nat \<Rightarrow> string \<Rightarrow> string \<Rightarrow> LoadedDoc" where
  "loadDoc chunkLines chunkOverlap p content =
     \<lparr> d_path = p, d_bytes = byteLength content, d_lineCount = length (splitLines content),
       d_chunks = chunkDocument p content chunkLines chunkOverlap \<rparr>"

text \<open>
  \<open>Promise.all(params.docPaths.map(...))\<close>: the documents in the order of the paths, or
  the error of a read that fails. When several reads fail the source propagates the
  rejection that settles first; the model takes the first in the order of the paths.
\<close>

fun readDocs :: "(string \<Rightarrow> string entry) \<Rightarrow> nat \<Rightarrow> nat \<Rightarrow> string list \<Rightarrow> error + LoadedDoc list" where
  "readDocs fs chunkLines chunkOverlap [] = Inr []"
| "readDocs fs chunkLines chunkOverlap (p # ps) =
     (case ensureReadableTextFile fs p of
        Inl e \<Rightarrow> Inl e
      | Inr content \<Rightarrow>
          (case readDocs fs chunkLines chunkOverlap ps of
             Inl e \<Rightarrow> Inl e
           | Inr ds \<Rightarrow> Inr (loadDoc chunkLines chunkOverlap p content # ds)))"

text \<open>
  \<open>Array.prototype.sort\<close> with a comparator: the sort is stable, and for a comparator
  that is a consistent order the result is the one that insertion from the right yields.
  An element goes before the first element that the comparator does not put before it.
\<close>

fun insort_cmp :: "('a \<Rightarrow> 'a \<Rightarrow> 'n::{zero,linorder}) \<Rightarrow> 'a \<Rightarrow> 'a list \<Rightarrow> 'a list" where
  "insort_cmp cmp x [] = [x]"
| "insort_cmp cmp x (y # ys) = (if cmp x y \<le> 0 then x # y # ys else y # insort_cmp cmp x ys)"

definition js_sort :: "('a \<Rightarrow> 'a \<Rightarrow> 'n::{zero,linorder}) \<Rightarrow> 'a list \<Rightarrow> 'a list" where
  "js_sort cmp xs = foldr (insort_cmp cmp) xs []"

text \<open>The chain \<open>map\<close>, \<open>filter\<close>, \<open>sort\<close>, \<open>slice(0, topK)\<close> of \<open>runLexicalSearch\<close>;
  an item is a chunk with its adjusted score.\<close>

definition scoreChunks :: "string list \<Rightarrow> string list \<Rightarrow> Chunk list \<Rightarrow> (Chunk \<times> real) list" where
  "scoreChunks queryTerms queryBigrams allChunks =
     map (\<lambda>chunk.
        (let baseScore = bm25Score queryTerms chunk (docFrequencyByTerm queryTerms allChunks)
               (length allChunks) (averageChunkLength allChunks)
         in (chunk, adjustedChunkScore chunk baseScore queryTerms queryBigrams))) allChunks"

definition rankItems :: "nat \<Rightarrow> ('a \<times> real) list \<Rightarrow> ('a \<times> real) list" where
  "rankItems topK items =
     slice 0 topK (js_sort (\<lambda>a b. snd b - snd a) (filter (\<lambda>item. snd item > 0) items))"

text \<open>The excerpt of a result.\<close>

definition isBlank :: "char \<Rightarrow> bool" where
  "isBlank c = (c = CHR '' '' \<or> c = CHR 0x09)"

function collapseBlanks :: "string \<Rightarrow> string" where
  "collapseBlanks [] = []"
| "collapseBlanks (c # cs) =
     (if isBlank c then CHR '' '' # collapseBlanks (dropWhile isBlank cs)
      else c # collapseBlanks cs)"
  by pat_completeness auto
termination
  by (relation "measure length") (auto simp: length_dropWhile_le less_Suc_eq_le)

function collapseNewlines :: "string \<Rightarrow> string" where
  "collapseNewlines [] = []"
| "collapseNewlines (c # cs) =
     (if c = CHR 0x0A then
        (if length (takeWhile (\<lambda>d. d = CHR 0x0A) (c # cs)) \<ge> 3 then [CHR 0x0A, CHR 0x0A]
         else takeWhile (\<lambda>d. d = CHR 0x0A) (c # cs))
        @ collapseNewlines (dropWhile (\<lambda>d. d = CHR 0x0A) cs)
      else c # collapseNewlines cs)"
  by pat_completeness auto
termination
  by (relation "measure length") (auto simp: length_dropWhile_le less_Suc_eq_le)

definition compactWhitespace :: "string \<Rightarrow> string" where
  "compactWhitespace v = trim (collapseNewlines (collapseBlanks v))"

definition trimEnd :: "string \<Rightarrow> string" where
  "trimEnd s = rev (dropWhile isWhiteSpace (rev s))"

definition trimExcerpt :: "string \<Rightarrow> nat \<Rightarrow> string" where
  "trimExcerpt v maxChars =
     (if length v \<le> maxChars then v
      else trimEnd (slice 0 (nat (max 0 (int maxChars - 3))) v) @ ''...'')"

text \<open>\<open>Number(score.toFixed(6))\<close> on the reals: the nearest multiple of \<open>10\<^sup>-\<^sup>6\<close>, of
  two the one away from zero.\<close>

definition toFixed6 :: "real \<Rightarrow> real" where
  "toFixed6 x =
     (if x < 0 then - (real_of_int \<lfloor>- x * 1000000 + 1 / 2\<rfloor> / 1000000)
      else real_of_int \<lfloor>x * 1000000 + 1 / 2\<rfloor> / 1000000)"

record DocInfo =
  i_path :: string
  i_bytes :: nat
  i_line_count :: nat

record ResultRow =
  r_rank :: nat
  r_score :: real
  r_path :: string
  r_accession :: "string option"
  r_line_start :: nat
  r_line_end :: nat
  r_excerpt :: string

text \<open>The payload of a search. The keys \<open>query_terms\<close> and \<open>chunk_count\<close> are absent
  from the payload of a search over no chunks.\<close>

record SearchData =
  s_query :: string
  s_backend :: string
  s_query_terms :: "string list option"
  s_docs :: "DocInfo list"
  s_chunk_count :: "nat option"
  s_result_count :: nat
  s_results :: "ResultRow list"

definition docInfo :: "LoadedDoc \<Rightarrow> DocInfo" where
  "docInfo doc = \<lparr> i_path = d_path doc, i_bytes = d_bytes doc, i_line_count = d_lineCount doc \<rparr>"

definition resultRow :: "nat \<Rightarrow> Chunk \<times> real \<Rightarrow> ResultRow" where
  "resultRow idx item =
     \<lparr> r_rank = idx + 1, r_score = toFixed6 (snd item), r_path = docPath (fst item),
       r_accession = accession (fst item), r_line_start = lineStart (fst item),
       r_line_end = lineEnd (fst item),
       r_excerpt = trimExcerpt (compactWhitespace (chunkText (fst item))) 1200 \<rparr>"

definition runLexicalSearch ::
  "(string \<Rightarrow> string entry) \<Rightarrow> string \<Rightarrow> string list \<Rightarrow> nat \<Rightarrow> nat \<Rightarrow> nat \<Rightarrow> error + SearchData" where
  "runLexicalSearch fs rawQuery docPaths topK chunkLines chunkOverlap =
     (let query = trim rawQuery
      in if length query = 0 then Inl (CLIError VALIDATION_ERROR ''Query must not be empty'')
         else if chunkOverlap \<ge> chunkLines
         then Inl (CLIError VALIDATION_ERROR ''--chunk-overlap must be less than --chunk-lines'')
         else
           (case readDocs fs chunkLines chunkOverlap docPaths of
              Inl e \<Rightarrow> Inl e
            | Inr docs \<Rightarrow>
                (let allChunks = concat (map d_chunks docs)
                 in if length allChunks = 0
                    then Inr \<lparr> s_query = query, s_backend = ''lexical'', s_query_terms = None,
                               s_docs = map docInfo docs, s_chunk_count = None,
                               s_result_count = 0, s_results = [] \<rparr>
                    else
                      (let queryTerms = buildQueryTerms query
                       in if length queryTerms = 0
                          then Inl (CLIError VALIDATION_ERROR
                                 ''Query must contain at least one alphanumeric token'')
                          else
                            (let queryBigrams = buildQueryBigrams queryTerms;
                                 scored = rankItems topK
                                            (scoreChunks queryTerms queryBigrams allChunks)
                             in Inr \<lparr> s_query = query, s_backend = ''lexical'',
                                       s_query_terms = Some queryTerms,
                                       s_docs = map docInfo docs,
                                       s_chunk_count = Some (length allChunks),
                                       s_result_count = length scored,
                                       s_results = map (\<lambda>(idx, item). resultRow idx item)
                                                     (enumerate 0 scored) \<rparr>)))))"

section \<open>Paths of the cache\<close>

text \<open>\<open>path.join\<close> of the POSIX flavour: the non-empty segments joined with a slash,
  then normalised (empty and \<open>.\<close> components dropped, \<open>..\<close> resolved).\<close>

fun splitOn :: "char \<Rightarrow> string \<Rightarrow> string list" where
  "splitOn sep [] = [[]]"
| "splitOn sep (c # cs) =
     (if c = sep then [] # splitOn sep cs
      else (case splitOn sep cs of [] \<Rightarrow> [[c]] | l # ls \<Rightarrow> (c # l) # ls))"

fun joinWith :: "string \<Rightarrow> string list \<Rightarrow> string" where
  "joinWith sep [] = []"
| "joinWith sep [l] = l"
| "joinWith sep (l # ls) = l @ sep @ joinWith sep ls"

text \<open>The components kept so far, the last one first.\<close>

definition normalizeStep :: "bool \<Rightarrow> string list \<Rightarrow> string \<Rightarrow> string list" where
  "normalizeStep allowAboveRoot kept seg =
     (if seg = [] \<or> seg = ''.'' then kept
      else if seg = ''..'' then
        (case kept of
           [] \<Rightarrow> (if allowAboveRoot then [''..''] else [])
         | topSeg # below \<Rightarrow>
             (if topSeg = ''..'' then (if allowAboveRoot then ''..'' # kept else kept) else below))
      else seg # kept)"

definition path_normalize :: "string \<Rightarrow> string" where
  "path_normalize p =
     (if p = [] then ''.''
      else
        (let isAbsolute = (hd p = CHR ''/'');
             trailingSeparator = (last p = CHR ''/'');
             body = joinWith ''/''
                      (rev (foldl (normalizeStep (\<not> isAbsolute)) [] (splitOn CHR ''/'' p)))
         in if body = [] then (if isAbsolute then ''/'' else if trailingSeparator then ''./'' else ''.'')
            else (if isAbsolute then ''/'' else []) @ body
                 @ (if trailingSeparator then ''/'' else [])))"

definition path_join :: "string list \<Rightarrow> string" where
  "path_join segments =
     (let joined = joinWith ''/'' (filter (\<lambda>s. s \<noteq> []) segments)
      in if joined = [] then ''.'' else path_normalize joined)"

datatype ResearchProfile = core | events | financials

fun profileName :: "ResearchProfile \<Rightarrow> string" where
  "profileName core = ''core''"
| "profileName events = ''events''"
| "profileName financials = ''financials''"

definition companyCacheDir :: "string \<Rightarrow> string \<Rightarrow> string" where
  "companyCacheDir cacheRoot cik = path_join [cacheRoot, ''research'', ''companies'', cik]"

definition profileManifestPath :: "string \<Rightarrow> string \<Rightarrow> ResearchProfile \<Rightarrow> string" where
  "profileManifestPath cacheRoot cik profile =
     path_join [companyCacheDir cacheRoot cik, ''profiles'', profileName profile @ ''.json'']"

definition filingDocPath :: "string \<Rightarrow> string \<Rightarrow> string \<Rightarrow> string" where
  "filingDocPath cacheRoot cik acc =
     path_join [companyCacheDir cacheRoot cik, ''filings'', acc @ ''.md'']"

section \<open>Manifests\<close>

datatype json =
  JNull | JBool bool | JNumber real | JString string | JArray "json list"
  | JObject "(string \<times> json) list"

text \<open>
  The text of a file of the cache, as \<open>JSON.parse\<close> sees it: \<open>JsonText v\<close> is a text
  that parses to the value \<open>v\<close>, as the text \<open>JSON.stringify(v, null, 2)\<close> followed by
  a line feed does; \<open>PlainText s\<close> is the text \<open>s\<close>, which does not parse or is
  never parsed (a sync writes its documents to paths that are not the path of a
  manifest). That
  \<open>JSON.parse\<close> inverts \<open>JSON.stringify\<close> on values made of objects, arrays, strings,
  numbers and \<open>null\<close> belongs to the language, not to the program.
\<close>

datatype file_text = PlainText string | JsonText json

fun JSON_parse :: "file_text \<Rightarrow> json option" where
  "JSON_parse (JsonText v) = Some v"
| "JSON_parse (PlainText s) = None"

text \<open>Reading a property: \<open>None\<close> is \<open>undefined\<close>.\<close>

fun field :: "string \<Rightarrow> json \<Rightarrow> json option" where
  "field k (JObject kvs) = map_of kvs k"
| "field k _ = None"

fun truthy :: "json \<Rightarrow> bool" where
  "truthy JNull = False"
| "truthy (JBool b) = b"
| "truthy (JNumber n) = (n \<noteq> 0)"
| "truthy (JString s) = (s \<noteq> [])"
| "truthy (JArray _) = True"
| "truthy (JObject _) = True"

text \<open>\<open>typeof value === 'object'\<close>\<close>

fun typeofObject :: "json \<Rightarrow> bool" where
  "typeofObject JNull = True"
| "typeofObject (JArray _) = True"
| "typeofObject (JObject _) = True"
| "typeofObject _ = False"

text \<open>\<open>typeof x === 'string'\<close> for a property read\<close>

fun isString :: "json option \<Rightarrow> bool" where
  "isString (Some (JString _)) = True"
| "isString _ = False"

record CachedDoc =
  doc_accession :: string
  doc_form :: "string option"
  doc_filing_date :: "string option"
  doc_report_date :: "string option"
  doc_filing_url :: "string option"
  doc_path :: string

text \<open>The manifest that a sync builds. Its \<open>version\<close> has the literal type \<open>1\<close>.\<close>

record CachedManifest =
  m_id_input :: string
  m_cik :: string
  m_ticker :: "string option"
  m_title :: "string option"
  m_profile :: ResearchProfile
  m_synced_at :: string
  m_docs :: "CachedDoc list"

definition nullable :: "string option \<Rightarrow> json" where
  "nullable v = (case v of None \<Rightarrow> JNull | Some s \<Rightarrow> JString s)"

definition docToJson :: "CachedDoc \<Rightarrow> json" where
  "docToJson d =
     JObject [(''accession'', JString (doc_accession d)), (''form'', nullable (doc_form d)),
              (''filing_date'', nullable (doc_filing_date d)),
              (''report_date'', nullable (doc_report_date d)),
              (''filing_url'', nullable (doc_filing_url d)), (''path'', JString (doc_path d))]"

definition manifestToJson :: "CachedManifest \<Rightarrow> json" where
  "manifestToJson m =
     JObject [(''version'', JNumber 1), (''id_input'', JString (m_id_input m)),
              (''cik'', JString (m_cik m)), (''ticker'', nullable (m_ticker m)),
              (''title'', nullable (m_title m)),
              (''profile'', JString (profileName (m_profile m))),
              (''synced_at'', JString (m_synced_at m)),
              (''docs'', JArray (map docToJson (m_docs m)))]"

text \<open>The value that passes the checks is returned as it is (\<open>value as CachedManifest\<close>).\<close>

definition parseCachedManifest :: "json \<Rightarrow> error + json" where
  "parseCachedManifest v =
     (if \<not> truthy v \<or> \<not> typeofObject v
      then Inl (CLIError PARSE_ERROR ''Cached manifest is malformed'')
      else if field ''version'' v \<noteq> Some (JNumber 1) \<or> \<not> isString (field ''cik'' v) \<or>
              (case field ''docs'' v of
                 Some (JArray ds) \<Rightarrow>
                   \<not> list_all (\<lambda>doc. truthy doc \<and> isString (field ''path'' doc) \<and>
                                     isString (field ''accession'' doc)) ds
               | _ \<Rightarrow> True)
      then Inl (CLIError PARSE_ERROR ''Cached manifest is malformed'')
      else Inr v)"

definition readCachedManifest ::
  "(string \<Rightarrow> file_text entry) \<Rightarrow> string \<Rightarrow> string \<Rightarrow> ResearchProfile \<Rightarrow> error + json option" where
  "readCachedManifest fs cacheRoot cik profile =
     (let manifestPath = profileManifestPath cacheRoot cik profile;
          unable = (\<lambda>msg. Inl (CLIError VALIDATION_ERROR
                      (''Unable to read cached manifest '' @ manifestPath @ '': '' @ msg)))
      in case fs manifestPath of
           Absent \<Rightarrow> Inr None
         | Inaccessible msg \<Rightarrow> unable msg
         | Directory \<Rightarrow> unable ''EISDIR: illegal operation on a directory, read''
         | Unreadable msg \<Rightarrow> unable msg
         | Regular raw \<Rightarrow>
             (case JSON_parse raw of
                None \<Rightarrow> Inl (CLIError PARSE_ERROR
                          (''Cached manifest is not valid JSON: '' @ manifestPath))
              | Some parsed \<Rightarrow>
                  (case parseCachedManifest parsed of
                     Inl e \<Rightarrow> Inl e
                   | Inr manifest \<Rightarrow> Inr (Some manifest))))"

text \<open>
  \<open>writeFile\<close>: writing replaces the content of a path; it fails on a directory and on a
  path that cannot be accessed, with an error of the run-time system. The creation of the
  parent directories before it (\<open>mkdir\<close> with \<open>recursive\<close>) is taken to succeed.
\<close>

definition writeFile :: "(string \<Rightarrow> 'c entry) \<Rightarrow> string \<Rightarrow> 'c \<Rightarrow> error + (string \<Rightarrow> 'c entry)" where
  "writeFile fs p content =
     (case fs p of
        Directory \<Rightarrow>
          Inl (OtherError (''EISDIR: illegal operation on a directory, open '' @
                 [CHR 0x27] @ p @ [CHR 0x27]))
      | Inaccessible msg \<Rightarrow> Inl (OtherError msg)
      | _ \<Rightarrow> Inr (fs(p := Regular content)))"

definition writeCachedManifest ::
  "(string \<Rightarrow> file_text entry) \<Rightarrow> string \<Rightarrow> CachedManifest
     \<Rightarrow> error + (string \<times> (string \<Rightarrow> file_text entry))" where
  "writeCachedManifest fs cacheRoot manifest =
     (let manifestPath = profileManifestPath cacheRoot (m_cik manifest) (m_profile manifest)
      in case writeFile fs manifestPath (JsonText (manifestToJson manifest)) of
           Inl e \<Rightarrow> Inl e
         | Inr fs' \<Rightarrow> Inr (manifestPath, fs'))"

text \<open>\<open>fileExists\<close>: \<open>stat\<close> and \<open>isFile\<close>\<close>

definition fileExists :: "(string \<Rightarrow> 'c entry) \<Rightarrow> string \<Rightarrow> error + bool" where
  "fileExists fs filePath =
     (case fs filePath of
        Absent \<Rightarrow> Inr False
      | Inaccessible msg \<Rightarrow>
          Inl (CLIError VALIDATION_ERROR (''Unable to stat '' @ filePath @ '': '' @ msg))
      | Directory \<Rightarrow> Inr False
      | Unreadable msg \<Rightarrow> Inr True
      | Regular content \<Rightarrow> Inr True)"

section \<open>Corpus sync\<close>

record SyncRule =
  rule_form :: string
  rule_queryLimit :: nat
  rule_recentDays :: "nat option"

fun PROFILE_RULES :: "ResearchProfile \<Rightarrow> SyncRule list" where
  "PROFILE_RULES core =
     [\<lparr> rule_form = ''10-K'', rule_queryLimit = 1, rule_recentDays = None \<rparr>,
      \<lparr> rule_form = ''10-Q'', rule_queryLimit = 3, rule_recentDays = None \<rparr>,
      \<lparr> rule_form = ''8-K'', rule_queryLimit = 12, rule_recentDays = Some 180 \<rparr>]"
| "PROFILE_RULES events =
     [\<lparr> rule_form = ''8-K'', rule_queryLimit = 24, rule_recentDays = Some 365 \<rparr>]"
| "PROFILE_RULES financials =
     [\<lparr> rule_form = ''10-K'', rule_queryLimit = 2, rule_recentDays = None \<rparr>,
      \<lparr> rule_form = ''10-Q'', rule_queryLimit = 6, rule_recentDays = None \<rparr>]"

record FilingRow =
  row_accession :: string
  row_form :: "string option"
  row_filingDate :: "string option"
  row_reportDate :: "string option"
  row_filingUrl :: "string option"

record Entity =
  e_cik :: string
  e_ticker :: "string option"
  e_title :: "string option"

text \<open>
  What a sync takes from outside the subsystem: the identity resolver, the filing
  catalogue (\<open>runFilingsList\<close> for an entity, a form, an optional start date and a row
  limit), the content provider (\<open>runFilingsGet\<close> in markdown format for an entity and an
  accession; \<open>None\<close> is a result whose \<open>content\<close> is not a string), the clock
  (\<open>dateDaysAgo\<close>, \<open>nowIso\<close>) and the collation of the run-time system
  (\<open>localeCompare\<close>). Each answers a request the same way throughout one sync.
\<close>

record Collaborators =
  c_resolveEntity :: "string \<Rightarrow> error + Entity"
  c_runFilingsList :: "string \<Rightarrow> string \<Rightarrow> string option \<Rightarrow> nat \<Rightarrow> error + FilingRow list"
  c_runFilingsGet :: "string \<Rightarrow> string \<Rightarrow> error + string option"
  c_dateDaysAgo :: "nat \<Rightarrow> string"
  c_nowIso :: string
  c_localeCompare :: "string \<Rightarrow> string \<Rightarrow> int"

text \<open>\<open>selectedByAccession\<close> is a \<open>Map\<close>: its entries are kept in insertion order, and a
  row is set only under a key that the map does not have.\<close>

definition mergeRows :: "(string \<times> FilingRow) list \<Rightarrow> FilingRow list \<Rightarrow> (string \<times> FilingRow) list" where
  "mergeRows selectedByAccession rows =
     foldl (\<lambda>selected row.
              if row_accession row \<in> fst ` set selected then selected
              else selected @ [(row_accession row, row)])
       selectedByAccession rows"

text \<open>\<open>rule.recentDays ? dateDaysAgo(rule.recentDays) : undefined\<close>\<close>

definition ruleFrom :: "Collaborators \<Rightarrow> SyncRule \<Rightarrow> string option" where
  "ruleFrom env rule =
     (case rule_recentDays rule of
        None \<Rightarrow> None
      | Some days \<Rightarrow> (if days = 0 then None else Some (c_dateDaysAgo env days)))"

definition listRule :: "Collaborators \<Rightarrow> string \<Rightarrow> SyncRule \<Rightarrow> error + FilingRow list" where
  "listRule env cik rule =
     c_runFilingsList env cik (rule_form rule) (ruleFrom env rule) (rule_queryLimit rule)"

fun collectSelection ::
  "Collaborators \<Rightarrow> string \<Rightarrow> SyncRule list \<Rightarrow> (string \<times> FilingRow) list
     \<Rightarrow> error + (string \<times> FilingRow) list" where
  "collectSelection env cik [] selectedByAccession = Inr selectedByAccession"
| "collectSelection env cik (rule # rules) selectedByAccession =
     (case listRule env cik rule of
        Inl e \<Rightarrow> Inl e
      | Inr rows \<Rightarrow> collectSelection env cik rules (mergeRows selectedByAccession rows))"

text \<open>\<open>row.filingDate ?? ''\<close>\<close>

definition filingDateOrEmpty :: "FilingRow \<Rightarrow> string" where
  "filingDateOrEmpty row = (case row_filingDate row of None \<Rightarrow> [] | Some d \<Rightarrow> d)"

definition sortSelection :: "Collaborators \<Rightarrow> (string \<times> FilingRow) list \<Rightarrow> FilingRow list" where
  "sortSelection env selectedByAccession =
     js_sort (\<lambda>a b. c_localeCompare env (filingDateOrEmpty b) (filingDateOrEmpty a))
       (map snd selectedByAccession)"

definition selectRows :: "Collaborators \<Rightarrow> string \<Rightarrow> SyncRule list \<Rightarrow> error + FilingRow list" where
  "selectRows env cik rules =
     (case collectSelection env cik rules [] of
        Inl e \<Rightarrow> Inl e
      | Inr selectedByAccession \<Rightarrow> Inr (sortSelection env selectedByAccession))"

text \<open>The variables of the fetch loop.\<close>

record SyncAcc =
  a_docs :: "CachedDoc list"
  a_skipped :: "(string \<times> string) list"
  a_fetchedCount :: nat
  a_reusedCount :: nat

definition cachedDoc :: "FilingRow \<Rightarrow> string \<Rightarrow> CachedDoc" where
  "cachedDoc row p =
     \<lparr> doc_accession = row_accession row, doc_form = row_form row,
       doc_filing_date = row_filingDate row, doc_report_date = row_reportDate row,
       doc_filing_url = row_filingUrl row, doc_path = p \<rparr>"

text \<open>The body of the \<open>try\<close>: fetch the content, check that it is a string, write it
  with a final line feed.\<close>

definition fetchAndStore ::
  "Collaborators \<Rightarrow> string \<Rightarrow> FilingRow \<Rightarrow> string \<Rightarrow> (string \<Rightarrow> file_text entry)
     \<Rightarrow> error + (string \<Rightarrow> file_text entry)" where
  "fetchAndStore env cik row p fs =
     (case c_runFilingsGet env cik (row_accession row) of
        Inl e \<Rightarrow> Inl e
      | Inr None \<Rightarrow>
          Inl (CLIError PARSE_ERROR
                 (''Unable to parse markdown content for accession '' @ row_accession row))
      | Inr (Some content) \<Rightarrow>
          writeFile fs p
            (PlainText (if content \<noteq> [] \<and> last content = CHR 0x0A then content
                        else content @ [CHR 0x0A])))"

text \<open>The test of the \<open>catch\<close>: \<open>error instanceof CLIError && error.code === NOT_FOUND\<close>,
  with the message of the error.\<close>

fun notFoundMessage :: "error \<Rightarrow> string option" where
  "notFoundMessage (CLIError code msg) = (if code = NOT_FOUND then Some msg else None)"
| "notFoundMessage (OtherError msg) = None"

fun fetchLoop ::
  "Collaborators \<Rightarrow> string \<Rightarrow> string \<Rightarrow> bool \<Rightarrow> FilingRow list \<Rightarrow> SyncAcc
     \<Rightarrow> (string \<Rightarrow> file_text entry) \<Rightarrow> (error + SyncAcc) \<times> (string \<Rightarrow> file_text entry)" where
  "fetchLoop env cacheRoot cik refresh [] acc fs = (Inr acc, fs)"
| "fetchLoop env cacheRoot cik refresh (row # rows) acc fs =
     (let p = filingDocPath cacheRoot cik (row_accession row)
      in case (if refresh then Inr False else fileExists fs p) of
           Inl e \<Rightarrow> (Inl e, fs)
         | Inr shouldUseCache \<Rightarrow>
             (if \<not> shouldUseCache then
                (case fetchAndStore env cik row p fs of
                   Inr fs' \<Rightarrow>
                     fetchLoop env cacheRoot cik refresh rows
                       (acc\<lparr> a_fetchedCount := a_fetchedCount acc + 1,
                             a_docs := a_docs acc @ [cachedDoc row p] \<rparr>) fs'
                 | Inl e \<Rightarrow>
                     (case notFoundMessage e of
                        Some msg \<Rightarrow>
                          fetchLoop env cacheRoot cik refresh rows
                            (acc\<lparr> a_skipped := a_skipped acc @ [(row_accession row, msg)] \<rparr>) fs
                      | None \<Rightarrow> (Inl e, fs)))
              else
                fetchLoop env cacheRoot cik refresh rows
                  (acc\<lparr> a_reusedCount := a_reusedCount acc + 1,
                        a_docs := a_docs acc @ [cachedDoc row p] \<rparr>) fs))"

record SyncReport =
  rep_id :: string
  rep_cik :: string
  rep_ticker :: "string option"
  rep_title :: "string option"
  rep_profile :: ResearchProfile
  rep_cache_root :: string
  rep_manifest_path :: string
  rep_docs_count :: nat
  rep_fetched_count :: nat
  rep_reused_count :: nat
  rep_skipped_count :: nat
  rep_skipped :: "(string \<times> string) list"
  rep_docs :: "CachedDoc list"

text \<open>
  \<open>runResearchSync\<close>, with the cache root already resolved. The result comes with the
  file system as the sync leaves it, also when the sync fails.
\<close>

definition runResearchSync ::
  "Collaborators \<Rightarrow> (string \<Rightarrow> file_text entry) \<Rightarrow> string \<Rightarrow> ResearchProfile \<Rightarrow> string \<Rightarrow> bool
     \<Rightarrow> (error + SyncReport) \<times> (string \<Rightarrow> file_text entry)" where
  "runResearchSync env fs ident profile cacheRoot refresh =
     (case c_resolveEntity env ident of
        Inl e \<Rightarrow> (Inl e, fs)
      | Inr entity \<Rightarrow>
          (case selectRows env (e_cik entity) (PROFILE_RULES profile) of
             Inl e \<Rightarrow> (Inl e, fs)
           | Inr selectedRows \<Rightarrow>
               (case fetchLoop env cacheRoot (e_cik entity) refresh selectedRows
                       \<lparr> a_docs = [], a_skipped = [], a_fetchedCount = 0, a_reusedCount = 0 \<rparr> fs of
                  (Inl e, fs1) \<Rightarrow> (Inl e, fs1)
                | (Inr acc, fs1) \<Rightarrow>
                    (let manifest =
                           \<lparr> m_id_input = ident, m_cik = e_cik entity,
                             m_ticker = e_ticker entity, m_title = e_title entity,
                             m_profile = profile, m_synced_at = c_nowIso env,
                             m_docs = a_docs acc \<rparr>
                     in case writeCachedManifest fs1 cacheRoot manifest of
                          Inl e \<Rightarrow> (Inl e, fs1)
                        | Inr (manifestPath, fs2) \<Rightarrow>
                            (Inr \<lparr> rep_id = ident, rep_cik = e_cik entity,
                                   rep_ticker = e_ticker entity, rep_title = e_title entity,
                                   rep_profile = profile, rep_cache_root = cacheRoot,
                                   rep_manifest_path = manifestPath,
                                   rep_docs_count = length (a_docs acc),
                                   rep_fetched_count = a_fetchedCount acc,
                                   rep_reused_count = a_reusedCount acc,
                                   rep_skipped_count = length (a_skipped acc),
                                   rep_skipped = a_skipped acc, rep_docs = a_docs acc \<rparr>,
                             fs2)))))"

section \<open>The selection as the specification writes it\<close>

text \<open>
  The first rule to introduce an accession wins: the keys of the selection are distinct,
  they are the accessions of the rows seen, the rows that the rules listed in the order
  of the rules, and the row selected under an accession is the first row seen with it.
\<close>

definition firstRuleWins :: "(string \<times> FilingRow) list \<Rightarrow> FilingRow list \<Rightarrow> bool" where
  "firstRuleWins selected seen =
     (distinct (map fst selected) \<and>
      fst ` set selected = row_accession ` set seen \<and>
      list_all (\<lambda>(a, r). find (\<lambda>r'. row_accession r' = a) seen = Some r) selected)"

section \<open>A catalogue and a content provider to run a sync on\<close>

definition demo_annual :: FilingRow where
  "demo_annual =
     \<lparr> row_accession = ''0000320193-24-000123'', row_form = Some ''10-K'',
       row_filingDate = Some ''2024-11-01'', row_reportDate = Some ''2024-09-28'',
       row_filingUrl = Some ''https://www.sec.gov/Archives/a10k.htm'' \<rparr>"

definition demo_quarterly :: FilingRow where
  "demo_quarterly =
     \<lparr> row_accession = ''0000320193-25-000008'', row_form = Some ''10-Q'',
       row_filingDate = Some ''2025-01-31'', row_reportDate = None, row_filingUrl = None \<rparr>"

definition demo_event :: FilingRow where
  "demo_event =
     \<lparr> row_accession = ''0000320193-25-000011'', row_form = Some ''8-K'',
       row_filingDate = None, row_reportDate = None, row_filingUrl = None \<rparr>"

text \<open>The catalogue lists the annual report under the quarterly form as well, amended.\<close>

definition demo_env :: Collaborators where
  "demo_env =
     \<lparr> c_resolveEntity =
         (\<lambda>ident. Inr \<lparr> e_cik = ''0000320193'', e_ticker = Some ''AAPL'', e_title = None \<rparr>),
       c_runFilingsList =
         (\<lambda>cik form fromDate queryLimit.
            if form = ''10-K'' then Inr [demo_annual]
            else if form = ''10-Q''
            then Inr [demo_quarterly, demo_annual\<lparr> row_form := Some ''10-K/A'' \<rparr>]
            else Inr [demo_event]),
       c_runFilingsGet =
         (\<lambda>cik acc.
            if acc = ''0000320193-24-000123'' then Inr (Some ''# Annual report'')
            else if acc = ''0000320193-25-000008''
            then Inl (CLIError NOT_FOUND
                        ''No primary document found for accession 0000320193-25-000008'')
            else Inl (CLIError NETWORK_ERROR ''Request failed'')),
       c_dateDaysAgo = (\<lambda>days. ''2025-01-01''),
       c_nowIso = ''2025-06-30T00:00:00Z'',
       c_localeCompare = (\<lambda>x y. if x = y then 0 else if x \<le> y then - 1 else 1) \<rparr>"

text \<open>The report of a sync of the profile \<open>financials\<close> on them, with refresh, from an
  empty cache: the quarterly report has no document and is skipped.\<close>

definition demo_report :: SyncReport where
  "demo_report =
     \<lparr> rep_id = ''AAPL'', rep_cik = ''0000320193'', rep_ticker = Some ''AAPL'',
       rep_title = None, rep_profile = financials, rep_cache_root = ''/cache'',
       rep_manifest_path = ''/cache/research/companies/0000320193/profiles/financials.json'',
       rep_docs_count = 1, rep_fetched_count = 1, rep_reused_count = 0, rep_skipped_count = 1,
       rep_skipped =
         [(''0000320193-25-000008'',
           ''No primary document found for accession 0000320193-25-000008'')],
       rep_docs =
         [\<lparr> doc_accession = ''0000320193-24-000123'', doc_form = Some ''10-K'',
             doc_filing_date = Some ''2024-11-01'', doc_report_date = Some ''2024-09-28'',
             doc_filing_url = Some ''https://www.sec.gov/Archives/a10k.htm'',
             doc_path =
               ''/cache/research/companies/0000320193/filings/0000320193-24-000123.md'' \<rparr>] \<rparr>"

section \<open>The windows of a document as the specification writes them\<close>

text \<open>
  The specification describes the chunker as a sliding window over the lines of the
  document that advances by \<open>step = chunk_lines - chunk_overlap\<close>, the text of a window
  being the trimmed join of its lines. For a document of \<open>L\<close> lines, \<open>windowCount\<close> is the
  number of windows up to the first one that reaches line \<open>L\<close>; \<open>windowText\<close> and
  \<open>windowChunk\<close> are the text and the chunk of the window whose first line has the
  0-based index \<open>start\<close>. These three definitions follow the specification; the chunker
  of the source is \<open>chunkLoop\<close>.
\<close>

definition windowCount :: "nat \<Rightarrow> nat \<Rightarrow> nat \<Rightarrow> nat" where
  "windowCount L chunkLines step =
     (if L \<le> chunkLines then 1 else (L - chunkLines + step - 1) div step + 1)"

definition windowText :: "string list \<Rightarrow> nat \<Rightarrow> nat \<Rightarrow> string" where
  "windowText lines chunkLines start =
     trim (joinLines (slice start (min (length lines) (start + chunkLines)) lines))"

definition windowChunk :: "string \<Rightarrow> string list \<Rightarrow> nat \<Rightarrow> nat \<Rightarrow> Chunk" where
  "windowChunk p lines chunkLines start =
     mkChunk p (extractAccession p) start (min (length lines) (start + chunkLines))
       (windowText lines chunkLines start)"

section \<open>Properties of the chunking engine\<close>

lemma trim_empty_iff: "trim s = [] \<longleftrightarrow> (\<forall>c \<in> set s. isWhiteSpace c)"
proof
  assume "trim s = []"
  then have "dropWhile isWhiteSpace (rev (dropWhile isWhiteSpace s)) = []"
    by (simp add: trim_def)
  then have all: "\<forall>c \<in> set (dropWhile isWhiteSpace s). isWhiteSpace c"
    by simp
  have "dropWhile isWhiteSpace s = []"
  proof (rule ccontr)
    assume ne: "dropWhile isWhiteSpace s \<noteq> []"
    then have "\<not> isWhiteSpace (hd (dropWhile isWhiteSpace s))"
      by (rule hd_dropWhile)
    moreover have "hd (dropWhile isWhiteSpace s) \<in> set (dropWhile isWhiteSpace s)"
      using ne by simp
    ultimately show False using all by blast
  qed
  then show "\<forall>c \<in> set s. isWhiteSpace c"
    by simp
next
  assume "\<forall>c \<in> set s. isWhiteSpace c"
  then have "dropWhile isWhiteSpace s = []"
    by simp
  then have "trim s = rev (dropWhile isWhiteSpace (rev []))"
    unfolding trim_def by (rule arg_cong)
  then show "trim s = []"
    by simp
qed

lemma set_joinLines_hd: "ls \<noteq> [] \<Longrightarrow> set (hd ls) \<subseteq> set (joinLines ls)"
  by (induction ls rule: joinLines.induct) auto

declare chunkLoop.simps [simp del]

lemma lineStart_mkChunk [simp]: "lineStart (mkChunk p acc start e txt) = start + 1"
  by (simp add: mkChunk_def Let_def)

lemma lineEnd_mkChunk [simp]: "lineEnd (mkChunk p acc start e txt) = e"
  by (simp add: mkChunk_def Let_def)

lemma windowCount_shift:
  assumes "0 < step" and "i + chunkLines < L"
  shows "windowCount (L - i) chunkLines step = Suc (windowCount (L - (i + step)) chunkLines step)"
proof (cases "L - (i + step) \<le> chunkLines")
  case True
  let ?d = "L - i - chunkLines"
  have d: "0 < ?d" "?d \<le> step"
    using assms True by simp_all
  have "(?d + step - 1) div step = 1"
  proof -
    have "step \<le> ?d + step - 1" "?d + step - 1 < 2 * step"
      using d assms(1) by simp_all
    then show ?thesis
      by (metis One_nat_def div_nat_eqI mult.commute mult_2 nat_mult_1_right numeral_2_eq_2 plus_1_eq_Suc)
  qed
  then show ?thesis
    using assms True by (simp add: windowCount_def)
next
  case False
  let ?d = "L - (i + step) - chunkLines"
  have eq: "L - i - chunkLines + step - 1 = (?d + step - 1) + step"
    using False assms by simp
  have gen: "(x + step) div step = Suc (x div step)" for x
    using assms(1) by simp
  have "(L - i - chunkLines + step - 1) div step = Suc ((?d + step - 1) div step)"
    unfolding eq by (rule gen)
  then show ?thesis
    using assms False by (simp add: windowCount_def)
qed


lemma upt_0_Suc_shift: "[0..<Suc n] = 0 # map Suc [0..<n]"
  by (simp add: upt_conv_Cons map_Suc_upt del: upt_Suc)

lemma map_filter_upt_shift:
  "map f (filter P [0..<Suc n]) =
     (if P 0 then [f 0] else []) @ map (\<lambda>k. f (Suc k)) (filter (\<lambda>k. P (Suc k)) [0..<n])"
  unfolding upt_0_Suc_shift by (simp add: filter_map comp_def)

lemma chunkLoop_windows:
  assumes pos: "0 < chunkLines" and ov: "chunkOverlap < chunkLines"
  shows "i < length lines \<Longrightarrow>
     chunkLoop p acc lines chunkLines chunkOverlap i =
       map (\<lambda>k. mkChunk p acc (i + k * (chunkLines - chunkOverlap))
                   (min (length lines) (i + k * (chunkLines - chunkOverlap) + chunkLines))
                   (windowText lines chunkLines (i + k * (chunkLines - chunkOverlap))))
         (filter (\<lambda>k. windowText lines chunkLines (i + k * (chunkLines - chunkOverlap)) \<noteq> [])
            [0..<windowCount (length lines - i) chunkLines (chunkLines - chunkOverlap)])"
proof (induction "length lines - i" arbitrary: i rule: less_induct)
  case less
  let ?step = "chunkLines - chunkOverlap"
  let ?L = "length lines"
  let ?f = "\<lambda>i k. mkChunk p acc (i + k * ?step) (min ?L (i + k * ?step + chunkLines))
                   (windowText lines chunkLines (i + k * ?step))"
  let ?P = "\<lambda>i k. windowText lines chunkLines (i + k * ?step) \<noteq> []"
  have step: "stepOf chunkLines chunkOverlap = ?step" and sp: "0 < ?step" and sle: "?step \<le> chunkLines"
    using ov by (simp_all add: stepOf_def)
  have unf: "chunkLoop p acc lines chunkLines chunkOverlap i =
      (if windowText lines chunkLines i = [] then [] else [?f i 0]) @
      (if min ?L (i + chunkLines) \<ge> ?L then []
       else chunkLoop p acc lines chunkLines chunkOverlap (i + ?step))"
    using less.prems
    by (subst chunkLoop.simps) (simp add: Let_def step windowText_def)
  show ?case
  proof (cases "i + chunkLines < ?L")
    case False
    then have one: "windowCount (?L - i) chunkLines ?step = 1"
      by (simp add: windowCount_def)
    have "min ?L (i + chunkLines) \<ge> ?L"
      using False by simp
    then show ?thesis
      unfolding unf one by simp
  next
    case True
    have lt': "i + ?step < ?L"
      using True sle by simp
    have dec: "?L - (i + ?step) < ?L - i"
      using less.prems sp by simp
    have cnt: "windowCount (?L - i) chunkLines ?step =
        Suc (windowCount (?L - (i + ?step)) chunkLines ?step)"
      using sp True by (rule windowCount_shift)
    have IH: "chunkLoop p acc lines chunkLines chunkOverlap (i + ?step) =
        map (?f (i + ?step)) (filter (?P (i + ?step))
          [0..<windowCount (?L - (i + ?step)) chunkLines ?step])"
      by (rule less.hyps [OF dec lt'])
    have shift: "i + Suc k * ?step = i + ?step + k * ?step" for k
      by simp
    have "map (?f i) (filter (?P i) [0..<windowCount (?L - i) chunkLines ?step]) =
        (if ?P i 0 then [?f i 0] else []) @
        map (?f (i + ?step)) (filter (?P (i + ?step))
          [0..<windowCount (?L - (i + ?step)) chunkLines ?step])"
      unfolding cnt map_filter_upt_shift shift ..
    moreover have "\<not> min ?L (i + chunkLines) \<ge> ?L"
      using True by simp
    ultimately show ?thesis
      unfolding unf IH by simp
  qed
qed


lemma windowCount_pos: "0 < windowCount L chunkLines step"
  by (simp add: windowCount_def)

lemma windowCount_start_lt:
  assumes "0 < step" and "step \<le> chunkLines" and "0 < L" and "k < windowCount L chunkLines step"
  shows "k * step < L"
proof (cases "L \<le> chunkLines")
  case True
  then show ?thesis using assms by (simp add: windowCount_def)
next
  case False
  let ?q = "(L - chunkLines + step - 1) div step"
  have "k \<le> ?q"
    using assms(4) False by (simp add: windowCount_def)
  then have "k * step \<le> ?q * step"
    by simp
  also have "\<dots> \<le> L - chunkLines + step - 1"
    by (rule div_times_less_eq_dividend)
  also have "\<dots> < L"
    using False assms(1,2) by simp
  finally show ?thesis .
qed

lemma windowCount_last_reaches:
  assumes "0 < step"
  shows "L \<le> (windowCount L chunkLines step - 1) * step + chunkLines"
proof (cases "L \<le> chunkLines")
  case True
  then show ?thesis by simp
next
  case False
  let ?d = "L - chunkLines"
  let ?q = "(?d + step - 1) div step"
  have "?d + step - 1 < step + ?q * step"
    using assms by (rule dividend_less_div_times)
  then have "?d \<le> ?q * step"
    using assms by simp
  then show ?thesis
    using False by (simp add: windowCount_def)
qed

lemma windowCount_inner:
  assumes "0 < step" and "Suc k < windowCount L chunkLines step"
  shows "k * step + chunkLines < L"
proof (cases "L \<le> chunkLines")
  case True
  then show ?thesis using assms by (simp add: windowCount_def)
next
  case False
  let ?d = "L - chunkLines"
  let ?q = "(?d + step - 1) div step"
  have "Suc k \<le> ?q"
    using assms(2) False by (simp add: windowCount_def)
  then have "Suc k * step \<le> ?q * step"
    by (rule mult_le_mono1)
  also have "\<dots> \<le> ?d + step - 1"
    by (rule div_times_less_eq_dividend)
  finally have "k * step + step \<le> ?d + step - 1"
    by simp
  then have "k * step < ?d"
    using assms(1) False by simp
  then show ?thesis
    using False by simp
qed

lemma windowCount_blank_last:
  assumes cl: "0 < chunkLines" and ov: "chunkOverlap < chunkLines" and N: "0 < N"
  shows "((windowCount (N + 1) chunkLines (chunkLines - chunkOverlap) - 1) *
            (chunkLines - chunkOverlap) = N) =
         (chunkOverlap = 0 \<and> chunkLines dvd N)"
proof
  let ?step = "chunkLines - chunkOverlap"
  let ?W = "windowCount (N + 1) chunkLines ?step"
  have sp: "0 < ?step" using ov by simp
  assume eq: "(?W - 1) * ?step = N"
  have reach: "N + 1 \<le> (?W - 1) * ?step + chunkLines"
    using sp by (rule windowCount_last_reaches)
  have W2: "Suc (?W - 2) < ?W"
  proof -
    have "?W - 1 \<noteq> 0"
    proof
      assume z: "?W - 1 = 0"
      have "(?W - 1) * ?step = 0"
        unfolding z by simp
      with eq N show False by simp
    qed
    then show ?thesis by arith
  qed
  have inner: "(?W - 2) * ?step + chunkLines < N + 1"
    using sp W2 by (rule windowCount_inner)
  have "?W - 1 = Suc (?W - 2)"
    using W2 by arith
  then have "(?W - 1) * ?step = (?W - 2) * ?step + ?step"
    by (simp only: mult_Suc add.commute)
  then have "(?W - 2) * ?step + chunkLines \<le> (?W - 2) * ?step + ?step"
    using inner eq by simp
  then have "chunkLines \<le> ?step"
    by simp
  then have o0: "chunkOverlap = 0"
    using ov by simp
  then have "N = (?W - 1) * chunkLines"
    using eq by simp
  then have "chunkLines dvd N"
    by (rule dvdI [OF trans [OF _ mult.commute]])
  with o0 show "chunkOverlap = 0 \<and> chunkLines dvd N" by simp
next
  assume a: "chunkOverlap = 0 \<and> chunkLines dvd N"
  then obtain m where m: "N = chunkLines * m"
    by (auto simp: dvd_def)
  have mpos: "0 < m" using N m by (cases m) simp_all
  have big: "\<not> N + 1 \<le> chunkLines"
    using m mpos cl by (cases m) simp_all
  have "(N + 1 - chunkLines + chunkLines - 1) div chunkLines = m"
    using big m cl by simp
  then show "(windowCount (N + 1) chunkLines (chunkLines - chunkOverlap) - 1) *
            (chunkLines - chunkOverlap) = N"
    using a big m by (simp add: windowCount_def)
qed


lemma windowText_nonblank:
  assumes lt: "start < length lines" and pos: "0 < chunkLines"
    and nb: "trim (lines ! start) \<noteq> []"
  shows "windowText lines chunkLines start \<noteq> []"
proof -
  let ?w = "slice start (min (length lines) (start + chunkLines)) lines"
  have ne: "?w \<noteq> []"
    using lt pos by (simp add: slice_def)
  have "hd ?w = lines ! start"
    using lt pos by (simp add: slice_def hd_drop_conv_nth)
  then obtain c where c: "c \<in> set (hd ?w)" "\<not> isWhiteSpace c"
    using nb by (auto simp: trim_empty_iff)
  then have "c \<in> set (joinLines ?w)"
    using set_joinLines_hd [OF ne] by blast
  with c show ?thesis
    by (auto simp: windowText_def trim_empty_iff)
qed

lemma windowText_blank_last:
  assumes "trim blank = []" and "0 < chunkLines"
  shows "windowText (body @ [blank]) chunkLines (length body) = []"
proof -
  have "min (length (body @ [blank])) (length body + chunkLines) - length body = 1"
    using assms(2) by simp
  then have "slice (length body) (min (length (body @ [blank])) (length body + chunkLines))
      (body @ [blank]) = [blank]"
    unfolding slice_def by simp
  then show ?thesis
    using assms(1) by (simp add: windowText_def)
qed

lemma filter_upt_prefix:
  assumes "M \<le> W" and "\<forall>k < M. P k" and "\<forall>k. M \<le> k \<and> k < W \<longrightarrow> \<not> P k"
  shows "filter P [0..<W] = [0..<M]"
proof -
  have "[0..<W] = [0..<M] @ [M..<W]"
    using assms(1) by (metis le_add_diff_inverse upt_add_eq_append zero_le)
  moreover have "filter P [0..<M] = [0..<M]"
    using assms(2) by (simp add: filter_id_conv)
  moreover have "filter P [M..<W] = []"
    using assms(3) by (simp add: filter_empty_conv)
  ultimately show ?thesis by simp
qed

lemma lineStart_windowChunk [simp]: "lineStart (windowChunk p lines chunkLines start) = start + 1"
  by (simp add: windowChunk_def)

lemma lineEnd_windowChunk [simp]:
  "lineEnd (windowChunk p lines chunkLines start) = min (length lines) (start + chunkLines)"
  by (simp add: windowChunk_def)

lemma chunkDocument_eq_windows:
  assumes "0 < chunkLines" and "chunkOverlap < chunkLines"
  shows "chunkDocument p content chunkLines chunkOverlap =
     map (\<lambda>k. windowChunk p (splitLines content) chunkLines (k * (chunkLines - chunkOverlap)))
       (filter (\<lambda>k. windowText (splitLines content) chunkLines
                      (k * (chunkLines - chunkOverlap)) \<noteq> [])
          [0..<windowCount (length (splitLines content)) chunkLines (chunkLines - chunkOverlap)])"
proof -
  have ne: "0 < length (splitLines content)"
    by (cases content) (auto split: list.splits)
  show ?thesis
    unfolding chunkDocument_def chunkLoop_windows [OF assms ne] windowChunk_def by simp
qed


lemma trailing_blank_windows:
  assumes cl: "0 < chunkLines" and ov: "chunkOverlap < chunkLines"
    and body: "body \<noteq> []" and nb: "\<forall>l \<in> set body. trim l \<noteq> []"
    and blank: "trim blank = []"
  shows "filter (\<lambda>k. windowText (body @ [blank]) chunkLines (k * (chunkLines - chunkOverlap)) \<noteq> [])
           [0..<windowCount (length body + 1) chunkLines (chunkLines - chunkOverlap)] =
         [0..<(if chunkOverlap = 0 \<and> chunkLines dvd length body
               then windowCount (length body + 1) chunkLines (chunkLines - chunkOverlap) - 1
               else windowCount (length body + 1) chunkLines (chunkLines - chunkOverlap))]"
    and "0 < (if chunkOverlap = 0 \<and> chunkLines dvd length body
               then windowCount (length body + 1) chunkLines (chunkLines - chunkOverlap) - 1
               else windowCount (length body + 1) chunkLines (chunkLines - chunkOverlap))"
proof -
  let ?step = "chunkLines - chunkOverlap"
  let ?N = "length body"
  let ?W = "windowCount (?N + 1) chunkLines ?step"
  let ?P = "\<lambda>k. windowText (body @ [blank]) chunkLines (k * ?step) \<noteq> []"
  let ?D = "chunkOverlap = 0 \<and> chunkLines dvd ?N"
  let ?M = "if ?D then ?W - 1 else ?W"
  have sp: "0 < ?step" and sle: "?step \<le> chunkLines"
    using ov by simp_all
  have N: "0 < ?N" using body by simp
  have D: "((?W - 1) * ?step = ?N) = ?D"
    using cl ov N by (rule windowCount_blank_last)
  have Wpos: "0 < ?W" by (rule windowCount_pos)
  have start: "k * ?step < ?N + 1" if "k < ?W" for k
    using sp sle _ that by (rule windowCount_start_lt) simp
  have P_iff: "?P k = (k * ?step < ?N)" if "k < ?W" for k
  proof (cases "k * ?step < ?N")
    case True
    have "trim ((body @ [blank]) ! (k * ?step)) \<noteq> []"
      using True nb by (simp add: nth_append)
    then have "?P k"
      using True cl by (intro windowText_nonblank) simp_all
    with True show ?thesis by simp
  next
    case False
    then have "k * ?step = ?N"
      using start [OF that] by simp
    then show ?thesis
      using windowText_blank_last [OF blank cl, of body] by simp
  qed
  have only_last: "k = ?W - 1" if "k < ?W" and "k * ?step = ?N" for k
  proof (rule ccontr)
    assume "k \<noteq> ?W - 1"
    then have "Suc k < ?W" using that(1) by simp
    then have "Suc k * ?step < ?N + 1"
      by (rule start)
    then show False using that(2) sp by simp
  qed
  have "?M \<le> ?W" by simp
  moreover have "\<forall>k < ?M. ?P k"
  proof (intro allI impI)
    fix k assume k: "k < ?M"
    then have kW: "k < ?W" by (simp split: if_splits)
    have "k * ?step \<noteq> ?N"
    proof
      assume e: "k * ?step = ?N"
      then have "k = ?W - 1" using kW only_last by blast
      then have "(?W - 1) * ?step = ?N" using e by simp
      then have ?D using D by simp
      then show False using k \<open>k = ?W - 1\<close> by simp
    qed
    then have "k * ?step < ?N"
      using start [OF kW] by simp
    then show "?P k" using P_iff [OF kW] by simp
  qed
  moreover have "\<forall>k. ?M \<le> k \<and> k < ?W \<longrightarrow> \<not> ?P k"
  proof (intro allI impI)
    fix k assume k: "?M \<le> k \<and> k < ?W"
    then have d: ?D and kk: "k = ?W - 1"
      by (auto split: if_splits)
    then have "(?W - 1) * ?step = ?N" using D by simp
    then have "\<not> k * ?step < ?N" using kk by simp
    then show "\<not> ?P k" using P_iff k by blast
  qed
  ultimately show "filter ?P [0..<?W] = [0..<?M]"
    by (rule filter_upt_prefix)
  show "0 < ?M"
  proof (cases ?D)
    case True
    then have "(?W - 1) * ?step = ?N" using D by simp
    then have "?W - 1 \<noteq> 0" using N by (cases "?W - 1") simp_all
    moreover have "?M = ?W - 1" using True by (rule if_P)
    ultimately show ?thesis by (simp only: neq0_conv)
  next
    case False
    then have "?M = ?W" by (rule if_not_P)
    then show ?thesis using Wpos by (simp only:)
  qed
qed


lemma windows_prefix_facts:
  assumes c: "chunks = map (\<lambda>k. windowChunk p lines chunkLines (k * step)) [0..<M]"
    and M: "0 < M"
  shows "length chunks = M"
    and "\<forall>i < M. lineStart (chunks ! i) = 1 + i * step \<and>
                  lineEnd (chunks ! i) = min (length lines) (i * step + chunkLines)"
    and "lineEnd (last chunks) = min (length lines) ((M - 1) * step + chunkLines)"
proof -
  show "length chunks = M"
    unfolding c by simp
  show "\<forall>i < M. lineStart (chunks ! i) = 1 + i * step \<and>
                  lineEnd (chunks ! i) = min (length lines) (i * step + chunkLines)"
    unfolding c by simp
  have "[0..<M] \<noteq> []" using M by simp
  then have "last chunks = windowChunk p lines chunkLines (last [0..<M] * step)"
    unfolding c by (simp add: last_map)
  moreover have "last [0..<M] = M - 1"
    using M by (simp add: last_upt)
  ultimately show "lineEnd (last chunks) = min (length lines) ((M - 1) * step + chunkLines)"
    by simp
qed

text \<open>
  C3, as amended. The lines of a document are the pieces of \<open>content.split(/\r?\n/)\<close>, so
  a content that ends with a line feed has one more line, which is blank, and that line
  counts. Let \<open>chunk_lines > 0\<close>, \<open>chunk_overlap < chunk_lines\<close>,
  \<open>step = chunk_lines - chunk_overlap\<close> and \<open>L\<close> the number of lines. The chunks of the
  document are, in order, the windows \<open>k = 0, 1, ...\<close> up to the first window that reaches
  line \<open>L\<close>, without those whose text trims to the empty text; window \<open>k\<close> covers the
  lines \<open>1 + k * step\<close> to \<open>min L (k * step + chunk_lines)\<close>. When all the lines are
  non-blank (\<open>N = L\<close>), no window is skipped: chunk \<open>i\<close> starts at line \<open>1 + i * step\<close>
  and ends at line \<open>min L (i * step + chunk_lines)\<close>, and the last chunk ends at line
  \<open>N\<close>. When the lines are \<open>N \<ge> 1\<close> non-blank lines followed by one blank line, as in a
  content of \<open>N\<close> non-blank lines that ends with a line feed (\<open>L = N + 1\<close>), the starts and
  ends are the same, and the last chunk ends at line \<open>N + 1\<close>, except when
  \<open>chunk_overlap = 0\<close> and \<open>chunk_lines\<close> divides \<open>N\<close>: then the last window holds the
  blank line alone and is skipped, and the last chunk ends at line \<open>N\<close>.
\<close>

theorem chunkDocument_windows:
  assumes cl: "0 < chunkLines" and ov: "chunkOverlap < chunkLines"
  shows
    "chunkDocument p content chunkLines chunkOverlap =
       map (\<lambda>k. windowChunk p (splitLines content) chunkLines (k * (chunkLines - chunkOverlap)))
         (filter (\<lambda>k. windowText (splitLines content) chunkLines
                        (k * (chunkLines - chunkOverlap)) \<noteq> [])
            [0..<windowCount (length (splitLines content)) chunkLines
                   (chunkLines - chunkOverlap)]) \<and>
     ((\<forall>l \<in> set (splitLines content). trim l \<noteq> []) \<longrightarrow>
        length (chunkDocument p content chunkLines chunkOverlap) =
          windowCount (length (splitLines content)) chunkLines (chunkLines - chunkOverlap) \<and>
        (\<forall>i < length (chunkDocument p content chunkLines chunkOverlap).
           lineStart (chunkDocument p content chunkLines chunkOverlap ! i) =
             1 + i * (chunkLines - chunkOverlap) \<and>
           lineEnd (chunkDocument p content chunkLines chunkOverlap ! i) =
             min (length (splitLines content)) (i * (chunkLines - chunkOverlap) + chunkLines)) \<and>
        lineEnd (last (chunkDocument p content chunkLines chunkOverlap)) =
          length (splitLines content)) \<and>
     (\<forall>body blank.
        splitLines content = body @ [blank] \<and> body \<noteq> [] \<and>
        (\<forall>l \<in> set body. trim l \<noteq> []) \<and> trim blank = [] \<longrightarrow>
        length (chunkDocument p content chunkLines chunkOverlap) =
          (if chunkOverlap = 0 \<and> chunkLines dvd length body
           then windowCount (length body + 1) chunkLines (chunkLines - chunkOverlap) - 1
           else windowCount (length body + 1) chunkLines (chunkLines - chunkOverlap)) \<and>
        (\<forall>i < length (chunkDocument p content chunkLines chunkOverlap).
           lineStart (chunkDocument p content chunkLines chunkOverlap ! i) =
             1 + i * (chunkLines - chunkOverlap) \<and>
           lineEnd (chunkDocument p content chunkLines chunkOverlap ! i) =
             min (length body + 1) (i * (chunkLines - chunkOverlap) + chunkLines)) \<and>
        lineEnd (last (chunkDocument p content chunkLines chunkOverlap)) =
          (if chunkOverlap = 0 \<and> chunkLines dvd length body
           then length body else length body + 1))"
proof (intro conjI allI impI)
  let ?step = "chunkLines - chunkOverlap"
  let ?lines = "splitLines content"
  let ?chunks = "chunkDocument p content chunkLines chunkOverlap"
  let ?g = "\<lambda>k. windowChunk p ?lines chunkLines (k * ?step)"
  let ?P = "\<lambda>k. windowText ?lines chunkLines (k * ?step) \<noteq> []"
  have sp: "0 < ?step" and sle: "?step \<le> chunkLines"
    using ov by simp_all
  have L: "0 < length ?lines"
    by (cases content) (auto split: list.splits)
  show eq: "?chunks = map ?g (filter ?P [0..<windowCount (length ?lines) chunkLines ?step])"
    using cl ov by (rule chunkDocument_eq_windows)
  {
    assume nb: "\<forall>l \<in> set ?lines. trim l \<noteq> []"
    let ?W = "windowCount (length ?lines) chunkLines ?step"
    have "\<forall>k \<in> set [0..<?W]. ?P k"
    proof
      fix k assume "k \<in> set [0..<?W]"
      then have "k < ?W" by simp
      then have lt: "k * ?step < length ?lines"
        using sp sle L by (intro windowCount_start_lt)
      then have "trim (?lines ! (k * ?step)) \<noteq> []"
        using nb by simp
      with lt cl show "?P k"
        by (intro windowText_nonblank)
    qed
    then have "filter ?P [0..<?W] = [0..<?W]"
      by (simp only: filter_id_conv)
    then have c: "?chunks = map ?g [0..<?W]"
      using eq by simp
    note f = windows_prefix_facts [OF c windowCount_pos]
    show "length ?chunks = ?W" by (rule f(1))
    have reach: "length ?lines \<le> (?W - 1) * ?step + chunkLines"
      using sp by (rule windowCount_last_reaches)
    show "lineEnd (last ?chunks) = length ?lines"
      unfolding f(3) using reach by simp
    fix i assume "i < length ?chunks"
    then have i: "i < ?W" unfolding f(1) .
    show "lineStart (?chunks ! i) = 1 + i * ?step"
      using f(2) i by blast
    show "lineEnd (?chunks ! i) = min (length ?lines) (i * ?step + chunkLines)"
      using f(2) i by blast
  }
  {
    fix body blank
    assume a: "splitLines content = body @ [blank] \<and> body \<noteq> [] \<and>
        (\<forall>l \<in> set body. trim l \<noteq> []) \<and> trim blank = []"
    then have lines: "?lines = body @ [blank]" and body: "body \<noteq> []"
      and nb: "\<forall>l \<in> set body. trim l \<noteq> []" and blank: "trim blank = []"
      by simp_all
    let ?N = "length body"
    let ?W = "windowCount (?N + 1) chunkLines ?step"
    let ?D = "chunkOverlap = 0 \<and> chunkLines dvd ?N"
    let ?M = "if ?D then ?W - 1 else ?W"
    have len: "length ?lines = ?N + 1"
      unfolding lines by simp
    note t = trailing_blank_windows [OF cl ov body nb blank]
    have c: "?chunks = map ?g [0..<?M]"
      using eq t(1) unfolding len lines by simp
    note f = windows_prefix_facts [OF c t(2)]
    show "length ?chunks = ?M" by (rule f(1))
    have N: "0 < ?N" using body by simp
    have D: "((?W - 1) * ?step = ?N) = ?D"
      using cl ov N by (rule windowCount_blank_last)
    show "lineEnd (last ?chunks) = (if ?D then ?N else ?N + 1)"
    proof (cases ?D)
      case True
      then have M: "?M = ?W - 1" by (rule if_P)
      have e: "(?W - 1) * ?step = ?N" using D True by simp
      have st: "?step = chunkLines" using True by simp
      have "?W - 1 \<noteq> 0" using e N by (cases "?W - 1") simp_all
      then have "?W - 1 = Suc (?W - 1 - 1)" by simp
      then have "(?W - 1) * ?step = (?W - 1 - 1) * ?step + chunkLines"
        unfolding st by (metis mult_Suc add.commute)
      then have "(?W - 1 - 1) * ?step + chunkLines = ?N"
        using e by simp
      then have "lineEnd (last ?chunks) = min (length ?lines) ?N"
        unfolding f(3) M by simp
      then show ?thesis
        using True len by simp
    next
      case False
      then have M: "?M = ?W" by (rule if_not_P)
      have reach: "?N + 1 \<le> (?W - 1) * ?step + chunkLines"
        using sp by (rule windowCount_last_reaches)
      have "lineEnd (last ?chunks) = min (length ?lines) ((?W - 1) * ?step + chunkLines)"
        unfolding f(3) M ..
      then show ?thesis
        using False reach len by simp
    qed
    fix i assume "i < length ?chunks"
    then have i: "i < ?M" unfolding f(1) .
    show "lineStart (?chunks ! i) = 1 + i * ?step"
      using f(2) i by blast
    show "lineEnd (?chunks ! i) = min (?N + 1) (i * ?step + chunkLines)"
      using f(2) i len by simp
  }
qed

theorem chunkDocument_windows_witness:
  "list_all (\<lambda>l. trim l \<noteq> [])
     (splitLines (''aa'' @ [CHR 0x0A] @ ''bb'' @ [CHR 0x0D, CHR 0x0A] @ ''cc'')) \<and>
   length (chunkDocument ''p'' (''aa'' @ [CHR 0x0A] @ ''bb'' @ [CHR 0x0D, CHR 0x0A] @ ''cc'') 2 1) = 2 \<and>
   lineEnd (last (chunkDocument ''p''
     (''aa'' @ [CHR 0x0A] @ ''bb'' @ [CHR 0x0D, CHR 0x0A] @ ''cc'') 2 1)) = 3 \<and>
   lineStart (chunkDocument ''p''
     (''aa'' @ [CHR 0x0A] @ ''bb'' @ [CHR 0x0D, CHR 0x0A] @ ''cc'') 2 1 ! 1) = 2 \<and>
   lineEnd (chunkDocument ''p''
     (''aa'' @ [CHR 0x0A] @ ''bb'' @ [CHR 0x0D, CHR 0x0A] @ ''cc'') 2 1 ! 0) = 2 \<and>
   splitLines (''aa'' @ [CHR 0x0A] @ ''bb'' @ [CHR 0x0A] @ ''cc'' @ [CHR 0x0A]) =
     [''aa'', ''bb'', ''cc''] @ [[]] \<and>
   length (chunkDocument ''p''
     (''aa'' @ [CHR 0x0A] @ ''bb'' @ [CHR 0x0A] @ ''cc'' @ [CHR 0x0A]) 2 0) = 2 \<and>
   lineEnd (last (chunkDocument ''p''
     (''aa'' @ [CHR 0x0A] @ ''bb'' @ [CHR 0x0A] @ ''cc'' @ [CHR 0x0A]) 2 0)) = 4 \<and>
   splitLines (''aa'' @ [CHR 0x0A] @ ''bb'' @ [CHR 0x0A]) = [''aa'', ''bb''] @ [[]] \<and>
   length (chunkDocument ''p'' (''aa'' @ [CHR 0x0A] @ ''bb'' @ [CHR 0x0A]) 2 0) = 1 \<and>
   lineEnd (last (chunkDocument ''p'' (''aa'' @ [CHR 0x0A] @ ''bb'' @ [CHR 0x0A]) 2 0)) = 2"
proof -
  let ?c1 = "''aa'' @ [CHR 0x0A] @ ''bb'' @ [CHR 0x0D, CHR 0x0A] @ ''cc''"
  let ?c2 = "''aa'' @ [CHR 0x0A] @ ''bb'' @ [CHR 0x0A] @ ''cc'' @ [CHR 0x0A]"
  let ?c3 = "''aa'' @ [CHR 0x0A] @ ''bb'' @ [CHR 0x0A]"
  have h1: "0 < (2::nat)" and h2: "(1::nat) < 2" and h0: "(0::nat) < 2"
    by simp_all
  have sl1: "splitLines ?c1 = [''aa'', ''bb'', ''cc'']"
    by simp
  have sl2: "splitLines ?c2 = [''aa'', ''bb'', ''cc''] @ [[]]"
    by simp
  have sl3: "splitLines ?c3 = [''aa'', ''bb''] @ [[]]"
    by simp
  have nb1: "\<forall>l \<in> set (splitLines ?c1). trim l \<noteq> []"
    unfolding sl1 by (simp add: trim_def isWhiteSpace_def)
  have nb2: "\<forall>l \<in> set [''aa'', ''bb'', ''cc'']. trim l \<noteq> []"
    by (simp add: trim_def isWhiteSpace_def)
  have nb3: "\<forall>l \<in> set [''aa'', ''bb'']. trim l \<noteq> []"
    by (simp add: trim_def isWhiteSpace_def)
  have bl: "trim [] = []"
    by (simp add: trim_def)
  have w1: "windowCount (length (splitLines ?c1)) 2 (2 - 1) = 2"
    unfolding sl1 by (simp add: windowCount_def)
  have "length (chunkDocument ''p'' ?c1 2 1) =
          windowCount (length (splitLines ?c1)) 2 (2 - 1) \<and>
        lineEnd (last (chunkDocument ''p'' ?c1 2 1)) = length (splitLines ?c1)"
    using chunkDocument_windows [OF h1 h2, of "''p''" ?c1] nb1 by blast
  then have r1: "length (chunkDocument ''p'' ?c1 2 1) = 2 \<and>
        lineEnd (last (chunkDocument ''p'' ?c1 2 1)) = 3"
    unfolding w1 unfolding sl1 by simp
  have ix: "\<forall>i < length (chunkDocument ''p'' ?c1 2 1).
        lineStart (chunkDocument ''p'' ?c1 2 1 ! i) = 1 + i * (2 - 1) \<and>
        lineEnd (chunkDocument ''p'' ?c1 2 1 ! i) =
          min (length (splitLines ?c1)) (i * (2 - 1) + 2)"
    using chunkDocument_windows [OF h1 h2, of "''p''" ?c1] nb1 by blast
  have "(1::nat) < length (chunkDocument ''p'' ?c1 2 1)"
    and "(0::nat) < length (chunkDocument ''p'' ?c1 2 1)"
    using r1 by simp_all
  then have "lineStart (chunkDocument ''p'' ?c1 2 1 ! 1) = 1 + 1 * (2 - 1)"
    and "lineEnd (chunkDocument ''p'' ?c1 2 1 ! 0) = min (length (splitLines ?c1)) (0 * (2 - 1) + 2)"
    using ix by blast+
  then have r1': "lineStart (chunkDocument ''p'' ?c1 2 1 ! 1) = 2 \<and>
        lineEnd (chunkDocument ''p'' ?c1 2 1 ! 0) = 2"
    unfolding sl1 by simp
  have "length (chunkDocument ''p'' ?c2 2 0) =
          (if (0::nat) = 0 \<and> (2::nat) dvd length [''aa'', ''bb'', ''cc'']
           then windowCount (length [''aa'', ''bb'', ''cc''] + 1) 2 (2 - 0) - 1
           else windowCount (length [''aa'', ''bb'', ''cc''] + 1) 2 (2 - 0)) \<and>
        lineEnd (last (chunkDocument ''p'' ?c2 2 0)) =
          (if (0::nat) = 0 \<and> (2::nat) dvd length [''aa'', ''bb'', ''cc'']
           then length [''aa'', ''bb'', ''cc''] else length [''aa'', ''bb'', ''cc''] + 1)"
    using chunkDocument_windows [OF h1 h0, of "''p''" ?c2] sl2 nb2 bl by blast
  then have r2: "length (chunkDocument ''p'' ?c2 2 0) = 2 \<and>
        lineEnd (last (chunkDocument ''p'' ?c2 2 0)) = 4"
    by (simp add: windowCount_def)
  have "length (chunkDocument ''p'' ?c3 2 0) =
          (if (0::nat) = 0 \<and> (2::nat) dvd length [''aa'', ''bb'']
           then windowCount (length [''aa'', ''bb''] + 1) 2 (2 - 0) - 1
           else windowCount (length [''aa'', ''bb''] + 1) 2 (2 - 0)) \<and>
        lineEnd (last (chunkDocument ''p'' ?c3 2 0)) =
          (if (0::nat) = 0 \<and> (2::nat) dvd length [''aa'', ''bb'']
           then length [''aa'', ''bb''] else length [''aa'', ''bb''] + 1)"
    using chunkDocument_windows [OF h1 h0, of "''p''" ?c3] sl3 nb3 bl by blast
  then have r3: "length (chunkDocument ''p'' ?c3 2 0) = 1 \<and>
        lineEnd (last (chunkDocument ''p'' ?c3 2 0)) = 2"
    by (simp add: windowCount_def)
  have "list_all (\<lambda>l. trim l \<noteq> []) (splitLines ?c1)"
    using nb1 by (simp only: list_all_iff)
  with r1 r1' r2 r3 sl2 sl3 show ?thesis
    by blast
qed

text \<open>
  C3 as stated fails: the content of three non-blank lines, each ended by a line feed,
  chunked with 20 lines per chunk and an overlap of 5, gives one chunk that starts at
  line 1 and ends at line 4, not at line 3.
\<close>

theorem chunkDocument_final_line_end_counterexample:
  "splitLines (''alpha'' @ [CHR 0x0A] @ ''beta'' @ [CHR 0x0A] @ ''gamma'' @ [CHR 0x0A]) =
     [''alpha'', ''beta'', ''gamma'', []] \<and>
   map trim [''alpha'', ''beta'', ''gamma'', []] = [''alpha'', ''beta'', ''gamma'', []] \<and>
   length (chunkDocument ''p''
     (''alpha'' @ [CHR 0x0A] @ ''beta'' @ [CHR 0x0A] @ ''gamma'' @ [CHR 0x0A]) 20 5) = 1 \<and>
   lineStart (hd (chunkDocument ''p''
     (''alpha'' @ [CHR 0x0A] @ ''beta'' @ [CHR 0x0A] @ ''gamma'' @ [CHR 0x0A]) 20 5)) = 1 \<and>
   lineEnd (last (chunkDocument ''p''
     (''alpha'' @ [CHR 0x0A] @ ''beta'' @ [CHR 0x0A] @ ''gamma'' @ [CHR 0x0A]) 20 5)) = 4 \<and>
   lineEnd (last (chunkDocument ''p''
     (''alpha'' @ [CHR 0x0A] @ ''beta'' @ [CHR 0x0A] @ ''gamma'' @ [CHR 0x0A]) 20 5)) \<noteq> 3"
  by code_simp

section \<open>Properties of the ranking engine\<close>

lemma getOr0_foldl_freq:
  "getOr0 (foldl (\<lambda>frequency token. frequency(token \<mapsto> getOr0 frequency token + 1)) m tokens) t =
     getOr0 m t + count_list tokens t"
  by (induction tokens arbitrary: m) (auto simp: getOr0_def)

lemma getOr0_empty [simp]: "getOr0 Map.empty t = 0"
  by (simp add: getOr0_def)

lemma getOr0_buildTermFrequency: "getOr0 (buildTermFrequency tokens) t = count_list tokens t"
  using getOr0_foldl_freq [of Map.empty tokens t] by (simp add: buildTermFrequency_def)

lemma tf_le_tokenCount_mkChunk:
  "getOr0 (termFrequency (mkChunk p acc s e txt)) t \<le> tokenCount (mkChunk p acc s e txt)"
  by (simp add: mkChunk_def Let_def getOr0_buildTermFrequency count_le_length)

lemma chunkLoop_wf:
  "c \<in> set (chunkLoop p acc lines chunkLines chunkOverlap lineIdx) \<Longrightarrow>
     getOr0 (termFrequency c) t \<le> tokenCount c"
proof (induction p acc lines chunkLines chunkOverlap lineIdx rule: chunkLoop.induct)
  case (1 p acc lines chunkLines chunkOverlap lineIdx)
  from "1.prems" show ?case
    apply (subst (asm) chunkLoop.simps)
    apply (auto simp: Let_def tf_le_tokenCount_mkChunk split: if_splits intro: "1.IH")
    done
qed

lemma collectChunks_wf:
  "c \<in> set (collectChunks docs chunkLines chunkOverlap) \<Longrightarrow>
     getOr0 (termFrequency c) t \<le> tokenCount c"
  by (auto simp: collectChunks_def chunkDocument_def dest: chunkLoop_wf)

lemma foldl_count_filter:
  "foldl (\<lambda>count chunk. if P chunk then count + 1 else count) (n::nat) cs = n + length (filter P cs)"
  by (induction cs arbitrary: n) auto

lemma docFrequencyByTerm_foldl:
  "getOr0 (foldl (\<lambda>m term. m(term \<mapsto> f term)) m0 qs) t =
     (if t \<in> set qs then f t else getOr0 m0 t)"
  by (induction qs arbitrary: m0) (auto simp: getOr0_def)

lemma getOr0_docFrequencyByTerm:
  "t \<in> set queryTerms \<Longrightarrow>
     getOr0 (docFrequencyByTerm queryTerms allChunks) t =
       length (filter (\<lambda>c. 0 < getOr0 (termFrequency c) t) allChunks)"
  unfolding docFrequencyByTerm_def
  by (simp add: docFrequencyByTerm_foldl foldl_count_filter)

lemma foldl_tokenCount:
  "foldl (\<lambda>sum chunk. sum + tokenCount chunk) (n::nat) cs = n + sum_list (map tokenCount cs)"
  by (induction cs arbitrary: n) auto

lemma foldl_add_sum_list:
  "foldl (\<lambda>score term. if P term then score else score + g term) (a::real) qs =
     a + sum_list (map (\<lambda>term. if P term then 0 else g term) qs)"
  by (induction qs arbitrary: a) auto

lemma distinct_uniqueTokens_aux:
  "distinct seen \<Longrightarrow>
     distinct (foldl (\<lambda>seen t. if t \<in> set seen then seen else seen @ [t]) seen ts) \<and>
     set (foldl (\<lambda>seen t. if t \<in> set seen then seen else seen @ [t]) seen ts) = set seen \<union> set ts"
  by (induction ts arbitrary: seen) auto

lemma distinct_uniqueTokens: "distinct (uniqueTokens ts)"
  using distinct_uniqueTokens_aux [of "[]" ts] by (simp add: uniqueTokens_def)

lemma set_uniqueTokens: "set (uniqueTokens ts) = set ts"
  using distinct_uniqueTokens_aux [of "[]" ts] by (simp add: uniqueTokens_def)

lemma distinct_buildQueryTerms: "distinct (buildQueryTerms q)"
  by (simp add: buildQueryTerms_def Let_def distinct_uniqueTokens)


lemma bm25Score_sum_list:
  "bm25Score qs chunk dfm N avg =
     sum_list (map (\<lambda>term.
        if getOr0 (termFrequency chunk) term = 0 then 0
        else ln (1 + (real N - real (getOr0 dfm term) + 0.5) / (real (getOr0 dfm term) + 0.5)) *
             ((real (getOr0 (termFrequency chunk) term) * (1.2 + 1)) /
              (real (getOr0 (termFrequency chunk) term) +
               1.2 * (1 - 0.75 + 0.75 * (if avg > 0 then real (tokenCount chunk) / avg else 1))))) qs)"
  unfolding bm25Score_def Let_def
  by (subst foldl_add_sum_list) simp

lemma averageChunkLength_pos:
  assumes "chunk \<in> set allChunks" and "0 < tokenCount chunk"
  shows "0 < averageChunkLength allChunks"
    and "averageChunkLength allChunks =
           real (sum_list (map tokenCount allChunks)) / real (length allChunks)"
proof -
  have len: "0 < length allChunks"
    using assms(1) by (cases allChunks) auto
  have "tokenCount chunk \<le> sum_list (map tokenCount allChunks)"
    using assms(1) by (simp add: member_le_sum_list)
  then have pos: "0 < sum_list (map tokenCount allChunks)"
    using assms(2) by linarith
  have mx: "max (length allChunks) 1 = length allChunks"
    using len by arith
  show "averageChunkLength allChunks =
           real (sum_list (map tokenCount allChunks)) / real (length allChunks)"
    unfolding averageChunkLength_def mx by (simp add: foldl_tokenCount)
  then show "0 < averageChunkLength allChunks"
    using pos len by simp
qed

text \<open>
  C1. In a query evaluation, where the candidate chunks are the chunks of the documents
  read, the query terms are those derived from the query, \<open>N\<close> is the number of
  candidate chunks, \<open>df\<close> the number of candidate chunks that contain the term and
  \<open>avg_tokens\<close> the mean token count of the candidate chunks, the BM25 base score of
  a candidate chunk is the sum, over the query terms with \<open>tf > 0\<close> in the chunk, of
  \<open>idf * (tf * (k1 + 1)) / (tf + k1 * (1 - b + b * (chunk_tokens / avg_tokens)))\<close> with
  \<open>k1 = 1.2\<close>, \<open>b = 0.75\<close> and \<open>idf = ln (1 + (N - df + 0.5) / (df + 0.5))\<close>;
  the terms absent from the chunk contribute nothing.
\<close>

theorem bm25Score_formula:
  assumes chunks: "allChunks = collectChunks docs chunkLines chunkOverlap"
    and mem: "chunk \<in> set allChunks"
    and terms: "queryTerms = buildQueryTerms query"
  shows "bm25Score queryTerms chunk (docFrequencyByTerm queryTerms allChunks)
           (length allChunks) (averageChunkLength allChunks) =
         (\<Sum>term \<in> {t \<in> set queryTerms. 0 < getOr0 (termFrequency chunk) t}.
            spec_term_contribution
              (spec_idf (length allChunks)
                 (length (filter (\<lambda>c. 0 < getOr0 (termFrequency c) term) allChunks)))
              (getOr0 (termFrequency chunk) term)
              (real (tokenCount chunk))
              (real (sum_list (map tokenCount allChunks)) / real (length allChunks)))"
proof -
  let ?tf = "\<lambda>t. getOr0 (termFrequency chunk) t"
  let ?dfm = "docFrequencyByTerm queryTerms allChunks"
  let ?N = "length allChunks"
  let ?avg = "averageChunkLength allChunks"
  let ?f = "\<lambda>term. if ?tf term = 0 then 0
        else ln (1 + (real ?N - real (getOr0 ?dfm term) + 0.5) / (real (getOr0 ?dfm term) + 0.5)) *
             ((real (?tf term) * (1.2 + 1)) /
              (real (?tf term) +
               1.2 * (1 - 0.75 + 0.75 * (if ?avg > 0 then real (tokenCount chunk) / ?avg else 1))))"
  let ?S = "{t \<in> set queryTerms. 0 < ?tf t}"
  have dist: "distinct queryTerms"
    unfolding terms by (rule distinct_buildQueryTerms)
  have "bm25Score queryTerms chunk ?dfm ?N ?avg = sum_list (map ?f queryTerms)"
    by (rule bm25Score_sum_list)
  also have "\<dots> = sum ?f (set queryTerms)"
    using dist by (rule sum_list_distinct_conv_sum_set)
  also have "\<dots> = sum ?f ?S"
    by (rule sum.mono_neutral_right) auto
  also have "\<dots> = (\<Sum>term \<in> ?S.
            spec_term_contribution
              (spec_idf ?N (length (filter (\<lambda>c. 0 < getOr0 (termFrequency c) term) allChunks)))
              (?tf term) (real (tokenCount chunk))
              (real (sum_list (map tokenCount allChunks)) / real ?N))"
  proof (rule sum.cong [OF refl])
    fix t assume "t \<in> ?S"
    then have tq: "t \<in> set queryTerms" and tpos: "0 < ?tf t"
      by simp_all
    have "?tf t \<le> tokenCount chunk"
      using mem unfolding chunks by (rule collectChunks_wf)
    then have tc: "0 < tokenCount chunk"
      using tpos by linarith
    note avg = averageChunkLength_pos [OF mem tc]
    have df: "getOr0 ?dfm t = length (filter (\<lambda>c. 0 < getOr0 (termFrequency c) t) allChunks)"
      using tq by (rule getOr0_docFrequencyByTerm)
    show "?f t = spec_term_contribution
              (spec_idf ?N (length (filter (\<lambda>c. 0 < getOr0 (termFrequency c) t) allChunks)))
              (?tf t) (real (tokenCount chunk))
              (real (sum_list (map tokenCount allChunks)) / real ?N)"
      using tpos avg(1) unfolding df avg(2) spec_term_contribution_def spec_idf_def
      by simp
  qed
  finally show ?thesis .
qed


theorem bm25Score_formula_witness:
  "bm25Score (buildQueryTerms ''alpha beta'')
     (hd (collectChunks [(''d'', ''alpha beta alpha'')] 2 1))
     (docFrequencyByTerm (buildQueryTerms ''alpha beta'')
        (collectChunks [(''d'', ''alpha beta alpha'')] 2 1))
     (length (collectChunks [(''d'', ''alpha beta alpha'')] 2 1))
     (averageChunkLength (collectChunks [(''d'', ''alpha beta alpha'')] 2 1)) =
   (\<Sum>term \<in> {t \<in> set (buildQueryTerms ''alpha beta'').
        0 < getOr0 (termFrequency (hd (collectChunks [(''d'', ''alpha beta alpha'')] 2 1))) t}.
      spec_term_contribution
        (spec_idf (length (collectChunks [(''d'', ''alpha beta alpha'')] 2 1))
           (length (filter (\<lambda>c. 0 < getOr0 (termFrequency c) term)
              (collectChunks [(''d'', ''alpha beta alpha'')] 2 1))))
        (getOr0 (termFrequency (hd (collectChunks [(''d'', ''alpha beta alpha'')] 2 1))) term)
        (real (tokenCount (hd (collectChunks [(''d'', ''alpha beta alpha'')] 2 1))))
        (real (sum_list (map tokenCount (collectChunks [(''d'', ''alpha beta alpha'')] 2 1))) /
         real (length (collectChunks [(''d'', ''alpha beta alpha'')] 2 1))))"
proof -
  have ne: "collectChunks [(''d'', ''alpha beta alpha'')] 2 1 \<noteq> []"
    by code_simp
  then have mem: "hd (collectChunks [(''d'', ''alpha beta alpha'')] 2 1)
      \<in> set (collectChunks [(''d'', ''alpha beta alpha'')] 2 1)"
    by simp
  show ?thesis
    by (rule bm25Score_formula [OF refl mem refl])
qed

lemma idf_nonneg:
  assumes "df \<le> N"
  shows "0 \<le> ln (1 + (real N - real df + 0.5) / (real df + 0.5))"
proof (rule ln_ge_zero)
  have "0 \<le> (real N - real df + 0.5) / (real df + 0.5)"
    using assms by (intro divide_nonneg_pos) simp_all
  then show "1 \<le> 1 + (real N - real df + 0.5) / (real df + 0.5)"
    by simp
qed

lemma tf_ratio_mono:
  assumes "0 < c" and "a \<le> b" and that: "0 \<le> k"
  shows "(real a * k) / (real a + c) \<le> (real b * k) / (real b + c)"
proof -
  have pa: "0 < real a + c" and pb: "0 < real b + c"
    using assms(1) by (simp_all add: add_nonneg_pos)
  have "real a * k * (real b + c) \<le> real b * k * (real a + c)"
  proof -
    have "real a * (k * c) \<le> real b * (k * c)"
      using assms by (intro mult_right_mono) simp_all
    then show ?thesis by (simp add: algebra_simps)
  qed
  then show ?thesis
    using pa pb by (simp add: frac_le_eq divide_le_0_iff mult.commute) 
qed

lemma length_norm_pos:
  "0 < 1.2 * (1 - 0.75 + 0.75 * (if avg > 0 then real n / avg else (1::real)))"
proof -
  have "0 \<le> (if avg > 0 then real n / avg else (1::real))"
    by simp
  then show ?thesis
    by (intro mult_pos_pos add_pos_nonneg mult_nonneg_nonneg) simp_all
qed


lemma term_score_mono:
  assumes "a \<le> b" and "df \<le> N"
  shows "(if a = 0 then 0
          else ln (1 + (real N - real df + 0.5) / (real df + 0.5)) *
               ((real a * (1.2 + 1)) /
                (real a + 1.2 * (1 - 0.75 + 0.75 * (if avg > 0 then real n / avg else 1)))))
       \<le> (if b = 0 then 0
          else ln (1 + (real N - real df + 0.5) / (real df + 0.5)) *
               ((real b * (1.2 + 1)) /
                (real b + 1.2 * (1 - 0.75 + 0.75 * (if avg > 0 then real n / avg else 1)))))"
proof -
  let ?c = "1.2 * (1 - 0.75 + 0.75 * (if avg > 0 then real n / avg else (1::real)))"
  let ?idf = "ln (1 + (real N - real df + 0.5) / (real df + 0.5))"
  have c: "0 < ?c" by (rule length_norm_pos)
  have idf: "0 \<le> ?idf" using assms(2) by (rule idf_nonneg)
  have ratio: "(real a * (1.2 + 1)) / (real a + ?c) \<le> (real b * (1.2 + 1)) / (real b + ?c)"
    using c assms(1) by (rule tf_ratio_mono) simp
  have nonneg: "0 \<le> (real b * (1.2 + 1)) / (real b + ?c)"
    using c by (intro divide_nonneg_pos add_nonneg_pos) simp_all
  show ?thesis
  proof (cases "a = 0")
    case True
    show ?thesis
    proof (cases "b = 0")
      case b0: True
      show ?thesis unfolding True b0 by simp
    next
      case b1: False
      have "0 \<le> ?idf * ((real b * (1.2 + 1)) / (real b + ?c))"
        using idf nonneg by (rule mult_nonneg_nonneg)
      then show ?thesis using True b1 by (simp only: if_True if_False refl)
    qed
  next
    case False
    then have "b \<noteq> 0" using assms(1) by simp
    with False show ?thesis
      using mult_left_mono [OF ratio idf] by (simp only: if_False)
  qed
qed


text \<open>
  C5. Let the document frequency of a term be at most the total chunk count, as a count
  of chunks among them is. Raising the frequency of that term in a chunk from any value
  (in particular from a value \<open>tf \<ge> 1\<close>) to a greater or equal one, with the query
  terms, the document frequencies, the chunk's token count, the average token count, the
  total chunk count and the frequencies of all other terms unchanged, does not decrease
  the chunk's BM25 base score.
\<close>

theorem bm25Score_monotone_in_tf:
  assumes inc: "getOr0 (termFrequency chunk) term \<le> tf'"
    and df: "getOr0 dfm term \<le> N"
  shows "bm25Score queryTerms chunk dfm N avg \<le>
         bm25Score queryTerms (chunk\<lparr>termFrequency := (termFrequency chunk)(term \<mapsto> tf')\<rparr>) dfm N avg"
proof -
  let ?chunk' = "chunk\<lparr>termFrequency := (termFrequency chunk)(term \<mapsto> tf')\<rparr>"
  have tc: "tokenCount ?chunk' = tokenCount chunk" by simp
  have tf_term: "getOr0 (termFrequency ?chunk') term = tf'"
    by (simp add: getOr0_def)
  have tf_other: "getOr0 (termFrequency ?chunk') q = getOr0 (termFrequency chunk) q" if "q \<noteq> term" for q
    using that by (simp add: getOr0_def)
  show ?thesis
    unfolding bm25Score_sum_list tc
  proof (rule sum_list_mono)
    fix q assume "q \<in> set queryTerms"
    show "(if getOr0 (termFrequency chunk) q = 0 then 0
        else ln (1 + (real N - real (getOr0 dfm q) + 0.5) / (real (getOr0 dfm q) + 0.5)) *
             ((real (getOr0 (termFrequency chunk) q) * (1.2 + 1)) /
              (real (getOr0 (termFrequency chunk) q) +
               1.2 * (1 - 0.75 + 0.75 * (if avg > 0 then real (tokenCount chunk) / avg else 1)))))
      \<le> (if getOr0 (termFrequency ?chunk') q = 0 then 0
        else ln (1 + (real N - real (getOr0 dfm q) + 0.5) / (real (getOr0 dfm q) + 0.5)) *
             ((real (getOr0 (termFrequency ?chunk') q) * (1.2 + 1)) /
              (real (getOr0 (termFrequency ?chunk') q) +
               1.2 * (1 - 0.75 + 0.75 * (if avg > 0 then real (tokenCount chunk) / avg else 1)))))"
    proof (cases "q = term")
      case True
      show ?thesis
        unfolding True tf_term by (rule term_score_mono [OF inc df])
    next
      case False
      show ?thesis
        unfolding tf_other [OF False] by (rule order_refl)
    qed
  qed
qed


theorem bm25Score_monotone_in_tf_witness:
  "getOr0 (termFrequency (mkChunk ''d'' None 0 1 ''alpha beta'')) ''alpha'' \<le> 3 \<and>
   getOr0 [''alpha'' \<mapsto> 1] ''alpha'' \<le> 2 \<and>
   bm25Score [''alpha'', ''beta''] (mkChunk ''d'' None 0 1 ''alpha beta'') [''alpha'' \<mapsto> 1] 2 2 \<le>
   bm25Score [''alpha'', ''beta'']
     ((mkChunk ''d'' None 0 1 ''alpha beta'')
        \<lparr>termFrequency :=
           (termFrequency (mkChunk ''d'' None 0 1 ''alpha beta''))(''alpha'' \<mapsto> 3)\<rparr>)
     [''alpha'' \<mapsto> 1] 2 2"
proof -
  have h1: "getOr0 (termFrequency (mkChunk ''d'' None 0 1 ''alpha beta'')) ''alpha'' \<le> 3"
    by code_simp
  have h2: "getOr0 [''alpha'' \<mapsto> 1] ''alpha'' \<le> 2"
    by (simp add: getOr0_def)
  show ?thesis
    using h1 h2 bm25Score_monotone_in_tf [OF h1 h2, of "[''alpha'', ''beta'']" 2] by blast
qed

lemma set_insort_cmp [simp]: "set (insort_cmp cmp x ys) = insert x (set ys)"
  by (induction ys) auto

lemma length_insort_cmp [simp]: "length (insort_cmp cmp x ys) = Suc (length ys)"
  by (induction ys) auto

lemma set_js_sort [simp]: "set (js_sort cmp xs) = set xs"
  by (induction xs) (auto simp: js_sort_def)

lemma length_js_sort [simp]: "length (js_sort cmp xs) = length xs"
  by (induction xs) (auto simp: js_sort_def)

lemma sorted_insort_cmp:
  assumes total: "\<And>a b. cmp a b \<le> 0 \<or> cmp b a \<le> 0"
    and trans: "\<And>a b c. cmp a b \<le> 0 \<Longrightarrow> cmp b c \<le> 0 \<Longrightarrow> cmp a c \<le> 0"
  shows "sorted_wrt (\<lambda>a b. cmp a b \<le> 0) ys \<Longrightarrow>
         sorted_wrt (\<lambda>a b. cmp a b \<le> 0) (insort_cmp cmp x ys)"
proof (induction ys)
  case Nil
  then show ?case by simp
next
  case (Cons y ys)
  show ?case
  proof (cases "cmp x y \<le> 0")
    case True
    then have "\<forall>z \<in> set ys. cmp x z \<le> 0"
      using Cons.prems trans by auto
    then show ?thesis
      using True Cons.prems by simp
  next
    case False
    then have "cmp y x \<le> 0"
      using total [of x y] by simp
    then show ?thesis
      using False Cons by auto
  qed
qed

lemma sorted_js_sort:
  assumes "\<And>a b. cmp a b \<le> 0 \<or> cmp b a \<le> 0"
    and "\<And>a b c. cmp a b \<le> 0 \<Longrightarrow> cmp b c \<le> 0 \<Longrightarrow> cmp a c \<le> 0"
  shows "sorted_wrt (\<lambda>a b. cmp a b \<le> 0) (js_sort cmp xs)"
proof (induction xs)
  case Nil
  show ?case by (simp add: js_sort_def)
next
  case (Cons x xs)
  have "js_sort cmp (x # xs) = insort_cmp cmp x (js_sort cmp xs)"
    by (simp add: js_sort_def)
  then show ?case
    using sorted_insort_cmp [of cmp, OF assms Cons.IH] by simp
qed

lemma filter_insort_cmp_in:
  "P x \<Longrightarrow> \<forall>y \<in> set ys. P y \<longrightarrow> cmp x y \<le> 0 \<Longrightarrow>
     filter P (insort_cmp cmp x ys) = x # filter P ys"
  by (induction ys) auto

lemma filter_insort_cmp_out: "\<not> P x \<Longrightarrow> filter P (insort_cmp cmp x ys) = filter P ys"
  by (induction ys) auto

lemma js_sort_stable:
  assumes tie: "\<And>x y. P x \<Longrightarrow> P y \<Longrightarrow> cmp x y \<le> 0"
  shows "filter P (js_sort cmp xs) = filter P xs"
proof (induction xs)
  case Nil
  show ?case by (simp add: js_sort_def)
next
  case (Cons x xs)
  have unf: "js_sort cmp (x # xs) = insort_cmp cmp x (js_sort cmp xs)"
    by (simp add: js_sort_def)
  show ?case
  proof (cases "P x")
    case True
    then have "filter P (insort_cmp cmp x (js_sort cmp xs)) = x # filter P (js_sort cmp xs)"
      using tie by (intro filter_insort_cmp_in) auto
    then show ?thesis
      using True Cons.IH unf by simp
  next
    case False
    then show ?thesis
      using Cons.IH unf by (simp add: filter_insort_cmp_out)
  qed
qed

lemma map_fst_scoreChunks: "map fst (scoreChunks queryTerms queryBigrams allChunks) = allChunks"
  by (simp add: scoreChunks_def Let_def comp_def)

text \<open>
  C4. The ranked items of a search are the first \<open>top_k\<close> of a list of survivors, so
  at most \<open>top_k\<close>. The survivors are exactly the scored chunks with an adjusted score
  above zero; their scores descend; and for every score the survivors with that score
  are the scored chunks with that score in their original order, which is the order of
  discovery of the chunks (document order, then line order).
\<close>

theorem rankItems_discards_sorts_truncates:
  "map fst (scoreChunks queryTerms queryBigrams allChunks) = allChunks \<and>
   (\<exists>survivors.
      rankItems topK (scoreChunks queryTerms queryBigrams allChunks) = take topK survivors \<and>
      set survivors =
        {item \<in> set (scoreChunks queryTerms queryBigrams allChunks). snd item > 0} \<and>
      sorted_wrt (\<lambda>a b. snd a \<ge> snd b) survivors \<and>
      (\<forall>v. filter (\<lambda>item. snd item = v) survivors =
             filter (\<lambda>item. snd item = v \<and> v > 0)
               (scoreChunks queryTerms queryBigrams allChunks))) \<and>
   length (rankItems topK (scoreChunks queryTerms queryBigrams allChunks)) \<le> topK"
proof -
  let ?items = "scoreChunks queryTerms queryBigrams allChunks"
  let ?cmp = "\<lambda>(a :: Chunk \<times> real) (b :: Chunk \<times> real). snd b - snd a"
  let ?kept = "filter (\<lambda>item. snd item > 0) ?items"
  let ?S = "js_sort ?cmp ?kept"
  have r: "rankItems topK ?items = take topK ?S"
    by (simp add: rankItems_def slice_def)
  have s: "set ?S = {item \<in> set ?items. snd item > 0}"
    by auto
  have "sorted_wrt (\<lambda>a b. ?cmp a b \<le> 0) ?S"
    by (rule sorted_js_sort) auto
  then have o: "sorted_wrt (\<lambda>a b. snd a \<ge> snd b) ?S"
    by simp
  have t: "filter (\<lambda>item. snd item = v) ?S = filter (\<lambda>item. snd item = v \<and> v > 0) ?items" for v
  proof -
    have "filter (\<lambda>item. snd item = v) ?S = filter (\<lambda>item. snd item = v) ?kept"
      by (rule js_sort_stable) simp
    also have "\<dots> = filter (\<lambda>item. snd item = v \<and> v > 0) ?items"
      by (simp add: conj_commute cong: conj_cong)
    finally show ?thesis .
  qed
  have l: "length (rankItems topK ?items) \<le> topK"
    unfolding r by simp
  show ?thesis
    using r s o t l map_fst_scoreChunks by blast
qed

text \<open>
  C2, as amended. Let the query terms derived from a query be empty and let every
  document be read. If the candidate chunks are not empty the search fails with a
  validation error. If there is no candidate chunk, the trimmed query is not empty and
  \<open>chunk_overlap < chunk_lines\<close>, the search succeeds with an empty result set: the
  check of the chunks comes before the check of the query terms.
\<close>

theorem runLexicalSearch_empty_query_terms:
  assumes terms: "buildQueryTerms (trim rawQuery) = []"
    and reads: "readDocs fs chunkLines chunkOverlap docPaths = Inr docs"
  shows "(concat (map d_chunks docs) \<noteq> [] \<longrightarrow>
            (\<exists>msg. runLexicalSearch fs rawQuery docPaths topK chunkLines chunkOverlap =
                     Inl (CLIError VALIDATION_ERROR msg))) \<and>
         (concat (map d_chunks docs) = [] \<and> trim rawQuery \<noteq> [] \<and> chunkOverlap < chunkLines \<longrightarrow>
            runLexicalSearch fs rawQuery docPaths topK chunkLines chunkOverlap =
              Inr \<lparr> s_query = trim rawQuery, s_backend = ''lexical'', s_query_terms = None,
                    s_docs = map docInfo docs, s_chunk_count = None,
                    s_result_count = 0, s_results = [] \<rparr>)"
  using terms reads by (simp add: runLexicalSearch_def Let_def)

text \<open>
  C2 as stated fails: the query \<open>?\<close> has no query term, and over one empty document
  the search returns an empty result set, not a validation error.
\<close>

theorem runLexicalSearch_empty_query_terms_counterexample:
  "buildQueryTerms (trim ''?'') = [] \<and>
   runLexicalSearch (no_files(''empty.md'' := Regular [])) ''?'' [''empty.md''] 8 40 10 =
     Inr \<lparr> s_query = ''?'', s_backend = ''lexical'', s_query_terms = None,
           s_docs = [\<lparr> i_path = ''empty.md'', i_bytes = 0, i_line_count = 1 \<rparr>],
           s_chunk_count = None, s_result_count = 0, s_results = [] \<rparr>"
proof -
  have t: "trim ''?'' = ''?''"
    by (simp add: trim_def isWhiteSpace_def)
  have q: "buildQueryTerms ''?'' = []"
    by (simp add: buildQueryTerms_def tokenize_def toLowerCase_def toLowerCase_char_def
        isAlnum_def uniqueTokens_def Let_def)
  have c: "chunkDocument ''empty.md'' [] 40 10 = []"
    by (simp add: chunkDocument_def chunkLoop.simps slice_def trim_def)
  have r: "readDocs (no_files(''empty.md'' := Regular [])) 40 10 [''empty.md''] =
             Inr [loadDoc 40 10 ''empty.md'' []]"
    by (simp add: ensureReadableTextFile_def)
  show ?thesis
    unfolding t using q
    by (simp add: runLexicalSearch_def Let_def t r loadDoc_def c docInfo_def byteLength_def
        del: readDocs.simps)
qed


theorem runLexicalSearch_empty_query_terms_witness:
  "buildQueryTerms (trim ''?'') = [] \<and>
   readDocs (no_files(''d.md'' := Regular ''hello world'')) 40 10 [''d.md''] =
     Inr [loadDoc 40 10 ''d.md'' ''hello world''] \<and>
   concat (map d_chunks [loadDoc 40 10 ''d.md'' ''hello world'']) \<noteq> [] \<and>
   (\<exists>msg. runLexicalSearch (no_files(''d.md'' := Regular ''hello world'')) ''?'' [''d.md''] 8 40 10 =
           Inl (CLIError VALIDATION_ERROR msg)) \<and>
   readDocs (no_files(''empty.md'' := Regular [])) 40 10 [''empty.md''] =
     Inr [loadDoc 40 10 ''empty.md'' []] \<and>
   concat (map d_chunks [loadDoc 40 10 ''empty.md'' []]) = [] \<and>
   trim ''?'' \<noteq> [] \<and> (10::nat) < 40 \<and>
   runLexicalSearch (no_files(''empty.md'' := Regular [])) ''?'' [''empty.md''] 8 40 10 =
     Inr \<lparr> s_query = trim ''?'', s_backend = ''lexical'', s_query_terms = None,
           s_docs = map docInfo [loadDoc 40 10 ''empty.md'' []], s_chunk_count = None,
           s_result_count = 0, s_results = [] \<rparr>"
proof -
  have t: "trim ''?'' = ''?''"
    by (simp add: trim_def isWhiteSpace_def)
  have q: "buildQueryTerms (trim ''?'') = []"
    unfolding t
    by (simp add: buildQueryTerms_def tokenize_def toLowerCase_def toLowerCase_char_def
        isAlnum_def uniqueTokens_def Let_def)
  have r1: "readDocs (no_files(''d.md'' := Regular ''hello world'')) 40 10 [''d.md''] =
             Inr [loadDoc 40 10 ''d.md'' ''hello world'']"
    by (simp add: ensureReadableTextFile_def)
  have c1: "concat (map d_chunks [loadDoc 40 10 ''d.md'' ''hello world'']) \<noteq> []"
    by code_simp
  have r2: "readDocs (no_files(''empty.md'' := Regular [])) 40 10 [''empty.md''] =
             Inr [loadDoc 40 10 ''empty.md'' []]"
    by (simp add: ensureReadableTextFile_def)
  have c2: "concat (map d_chunks [loadDoc 40 10 ''empty.md'' []]) = []"
    by (simp add: loadDoc_def chunkDocument_def chunkLoop.simps slice_def trim_def)
  have t2: "trim ''?'' \<noteq> []" and lt: "(10::nat) < 40"
    by (simp_all add: t)
  note w1 = runLexicalSearch_empty_query_terms [OF q r1, of 8, THEN conjunct1, rule_format, OF c1]
  note w2 = runLexicalSearch_empty_query_terms [OF q r2, of 8, THEN conjunct2, rule_format,
      OF conjI [OF c2 conjI [OF t2 lt]]]
  show ?thesis
    using q r1 c1 w1 r2 c2 t2 lt w2 by (intro conjI)
qed

section \<open>Properties of the manifest store\<close>

lemma field_docToJson [simp]:
  "field ''accession'' (docToJson d) = Some (JString (doc_accession d))"
  "field ''path'' (docToJson d) = Some (JString (doc_path d))"
  "field ''form'' (docToJson d) = Some (nullable (doc_form d))"
  "truthy (docToJson d)"
  by (simp_all add: docToJson_def)

lemma field_manifestToJson [simp]:
  "field ''version'' (manifestToJson m) = Some (JNumber 1)"
  "field ''cik'' (manifestToJson m) = Some (JString (m_cik m))"
  "field ''profile'' (manifestToJson m) = Some (JString (profileName (m_profile m)))"
  "field ''docs'' (manifestToJson m) = Some (JArray (map docToJson (m_docs m)))"
  "truthy (manifestToJson m)" "typeofObject (manifestToJson m)"
  by (simp_all add: manifestToJson_def)

lemma parseCachedManifest_manifestToJson:
  "parseCachedManifest (manifestToJson m) = Inr (manifestToJson m)"
  by (simp add: parseCachedManifest_def list_all_iff)

lemma writeFile_read: "writeFile fs p content = Inr fs' \<Longrightarrow> fs' p = Regular content"
  by (auto simp: writeFile_def split: entry.splits)


lemma readCachedManifest_after_write:
  assumes "writeCachedManifest fs cacheRoot manifest = Inr res"
  shows "readCachedManifest (snd res) cacheRoot (m_cik manifest) (m_profile manifest) =
           Inr (Some (manifestToJson manifest))"
proof -
  let ?p = "profileManifestPath cacheRoot (m_cik manifest) (m_profile manifest)"
  from assms obtain fs' where w: "writeFile fs ?p (JsonText (manifestToJson manifest)) = Inr fs'"
    and res: "res = (?p, fs')"
    by (auto simp: writeCachedManifest_def Let_def split: sum.splits)
  have "fs' ?p = Regular (JsonText (manifestToJson manifest))"
    using w by (rule writeFile_read)
  then show ?thesis
    unfolding res
    by (simp add: readCachedManifest_def Let_def parseCachedManifest_manifestToJson)
qed



lemma parseCachedManifest_malformed:
  assumes "field ''version'' v \<noteq> Some (JNumber 1) \<or> \<not> isString (field ''cik'' v) \<or>
           (\<forall>ds. field ''docs'' v \<noteq> Some (JArray ds)) \<or>
           (\<exists>ds doc. field ''docs'' v = Some (JArray ds) \<and> doc \<in> set ds \<and>
                     (\<not> isString (field ''path'' doc) \<or> \<not> isString (field ''accession'' doc)))"
  shows "parseCachedManifest v = Inl (CLIError PARSE_ERROR ''Cached manifest is malformed'')"
  using assms
  by (auto simp: parseCachedManifest_def list_all_iff split: option.splits json.splits)

text \<open>
  C7, as amended. Reading a cached manifest whose file holds well-formed JSON with a wrong
  version tag, without a string \<open>cik\<close>, without a \<open>docs\<close> array, or with a
  \<open>docs\<close> entry without a string \<open>path\<close> or \<open>accession\<close>, fails with an error of
  the code \<open>PARSE_ERROR\<close> and the message \<open>Cached manifest is malformed\<close>. Content
  that is not JSON fails with the same code and another message.
\<close>

theorem readCachedManifest_malformed:
  assumes "fs (profileManifestPath cacheRoot cik profile) = Regular raw"
  shows "(JSON_parse raw = None \<longrightarrow>
            readCachedManifest fs cacheRoot cik profile =
              Inl (CLIError PARSE_ERROR (''Cached manifest is not valid JSON: '' @
                     profileManifestPath cacheRoot cik profile))) \<and>
         (\<forall>v. JSON_parse raw = Some v \<and>
               (field ''version'' v \<noteq> Some (JNumber 1) \<or> \<not> isString (field ''cik'' v) \<or>
                (\<forall>ds. field ''docs'' v \<noteq> Some (JArray ds)) \<or>
                (\<exists>ds doc. field ''docs'' v = Some (JArray ds) \<and> doc \<in> set ds \<and>
                     (\<not> isString (field ''path'' doc) \<or> \<not> isString (field ''accession'' doc)))) \<longrightarrow>
            readCachedManifest fs cacheRoot cik profile =
              Inl (CLIError PARSE_ERROR ''Cached manifest is malformed''))"
proof (intro conjI allI impI)
  assume "JSON_parse raw = None"
  then show "readCachedManifest fs cacheRoot cik profile =
      Inl (CLIError PARSE_ERROR (''Cached manifest is not valid JSON: '' @
             profileManifestPath cacheRoot cik profile))"
    using assms by (simp add: readCachedManifest_def Let_def)
next
  fix v
  assume a: "JSON_parse raw = Some v \<and>
               (field ''version'' v \<noteq> Some (JNumber 1) \<or> \<not> isString (field ''cik'' v) \<or>
                (\<forall>ds. field ''docs'' v \<noteq> Some (JArray ds)) \<or>
                (\<exists>ds doc. field ''docs'' v = Some (JArray ds) \<and> doc \<in> set ds \<and>
                     (\<not> isString (field ''path'' doc) \<or> \<not> isString (field ''accession'' doc))))"
  then have "parseCachedManifest v = Inl (CLIError PARSE_ERROR ''Cached manifest is malformed'')"
    by (intro parseCachedManifest_malformed) blast
  then show "readCachedManifest fs cacheRoot cik profile =
      Inl (CLIError PARSE_ERROR ''Cached manifest is malformed'')"
    using assms a by (simp add: readCachedManifest_def Let_def)
qed

text \<open>
  C7 as stated fails: a manifest of version 2, one without \<open>cik\<close> and one with a
  \<open>docs\<close> entry without \<open>path\<close> are all rejected with \<open>PARSE_ERROR\<close>, which is
  not the code of a validation error.
\<close>

theorem readCachedManifest_malformed_counterexample:
  "JSON_parse (JsonText (JObject [(''version'', JNumber 2), (''cik'', JString ''0000320193''),
        (''docs'', JArray [])])) =
     Some (JObject [(''version'', JNumber 2), (''cik'', JString ''0000320193''),
        (''docs'', JArray [])]) \<and>
   readCachedManifest
     (no_files(profileManifestPath ''/cache'' ''0000320193'' core :=
        Regular (JsonText (JObject [(''version'', JNumber 2), (''cik'', JString ''0000320193''),
          (''docs'', JArray [])]))))
     ''/cache'' ''0000320193'' core =
     Inl (CLIError PARSE_ERROR ''Cached manifest is malformed'') \<and>
   PARSE_ERROR \<noteq> VALIDATION_ERROR \<and>
   readCachedManifest
     (no_files(profileManifestPath ''/cache'' ''0000320193'' core :=
        Regular (JsonText (JObject [(''version'', JNumber 1), (''docs'', JArray [])]))))
     ''/cache'' ''0000320193'' core =
     Inl (CLIError PARSE_ERROR ''Cached manifest is malformed'') \<and>
   readCachedManifest
     (no_files(profileManifestPath ''/cache'' ''0000320193'' core :=
        Regular (JsonText (JObject [(''version'', JNumber 1), (''cik'', JString ''0000320193''),
          (''docs'', JArray [JObject [(''accession'', JString ''0000320193-24-000123'')]])]))))
     ''/cache'' ''0000320193'' core =
     Inl (CLIError PARSE_ERROR ''Cached manifest is malformed'')"
  by (simp add: readCachedManifest_def parseCachedManifest_def Let_def)

theorem readCachedManifest_malformed_witness:
  "(no_files(profileManifestPath ''/cache'' ''0000320193'' events :=
        Regular (JsonText (JObject [(''version'', JNumber 1), (''cik'', JString ''0000320193''),
          (''docs'', JArray [JObject [(''accession'', JString ''0000320193-24-000123'')]])]))))
     (profileManifestPath ''/cache'' ''0000320193'' events) =
     Regular (JsonText (JObject [(''version'', JNumber 1), (''cik'', JString ''0000320193''),
          (''docs'', JArray [JObject [(''accession'', JString ''0000320193-24-000123'')]])])) \<and>
   \<not> isString (field ''path'' (JObject [(''accession'', JString ''0000320193-24-000123'')])) \<and>
   readCachedManifest
     (no_files(profileManifestPath ''/cache'' ''0000320193'' events :=
        Regular (JsonText (JObject [(''version'', JNumber 1), (''cik'', JString ''0000320193''),
          (''docs'', JArray [JObject [(''accession'', JString ''0000320193-24-000123'')]])]))))
     ''/cache'' ''0000320193'' events =
     Inl (CLIError PARSE_ERROR ''Cached manifest is malformed'') \<and>
   (no_files(profileManifestPath ''/cache'' ''0000320193'' events := Regular (PlainText ''{'')))
     (profileManifestPath ''/cache'' ''0000320193'' events) = Regular (PlainText ''{'') \<and>
   JSON_parse (PlainText ''{'') = None \<and>
   readCachedManifest
     (no_files(profileManifestPath ''/cache'' ''0000320193'' events := Regular (PlainText ''{'')))
     ''/cache'' ''0000320193'' events =
     Inl (CLIError PARSE_ERROR (''Cached manifest is not valid JSON: '' @
            profileManifestPath ''/cache'' ''0000320193'' events))"
proof -
  let ?p = "profileManifestPath ''/cache'' ''0000320193'' events"
  let ?doc = "JObject [(''accession'', JString ''0000320193-24-000123'')]"
  let ?v = "JObject [(''version'', JNumber 1), (''cik'', JString ''0000320193''),
          (''docs'', JArray [?doc])]"
  have f1: "(no_files(?p := Regular (JsonText ?v))) ?p = Regular (JsonText ?v)"
    by simp
  have p1: "JSON_parse (JsonText ?v) = Some ?v"
    by simp
  have bad: "field ''docs'' ?v = Some (JArray [?doc]) \<and> ?doc \<in> set [?doc] \<and>
      (\<not> isString (field ''path'' ?doc) \<or> \<not> isString (field ''accession'' ?doc))"
    by simp
  have r1: "readCachedManifest (no_files(?p := Regular (JsonText ?v))) ''/cache'' ''0000320193'' events =
      Inl (CLIError PARSE_ERROR ''Cached manifest is malformed'')"
    using readCachedManifest_malformed [of "no_files(?p := Regular (JsonText ?v))" "''/cache''"
        "''0000320193''" events "JsonText ?v", OF f1, THEN conjunct2, rule_format, of ?v] p1 bad
    by blast
  have f2: "(no_files(?p := Regular (PlainText ''{''))) ?p = Regular (PlainText ''{'')"
    by simp
  have p2: "JSON_parse (PlainText ''{'') = None"
    by simp
  have r2: "readCachedManifest (no_files(?p := Regular (PlainText ''{''))) ''/cache'' ''0000320193'' events =
      Inl (CLIError PARSE_ERROR (''Cached manifest is not valid JSON: '' @ ?p))"
    using readCachedManifest_malformed [of "no_files(?p := Regular (PlainText ''{''))" "''/cache''"
        "''0000320193''" events "PlainText ''{''", OF f2, THEN conjunct1, rule_format, OF p2] .
  have np: "\<not> isString (field ''path'' ?doc)"
    by simp
  show ?thesis
    using f1 np r1 f2 p2 r2 by (intro conjI)
qed

section \<open>Properties of the cache paths\<close>



lemma splitOn_not_Nil [simp]: "splitOn sep q \<noteq> []"
  by (induction q) (auto split: list.splits)








section \<open>Properties of the corpus sync\<close>


lemma fetchLoop_Cons_cases:
  fixes env cacheRoot cik refresh row rows acc fs
  defines "p \<equiv> filingDocPath cacheRoot cik (row_accession row)"
  obtains
    (stat_fails) e where "\<not> refresh" and "fileExists fs p = Inl e"
      and "fetchLoop env cacheRoot cik refresh (row # rows) acc fs = (Inl e, fs)"
  | (reused) "\<not> refresh" and "fileExists fs p = Inr True"
      and "fetchLoop env cacheRoot cik refresh (row # rows) acc fs =
           fetchLoop env cacheRoot cik refresh rows
             (acc\<lparr> a_reusedCount := a_reusedCount acc + 1,
                   a_docs := a_docs acc @ [cachedDoc row p] \<rparr>) fs"
  | (fetched) fs1 where "refresh \<or> fileExists fs p = Inr False"
      and "fetchAndStore env cik row p fs = Inr fs1"
      and "fetchLoop env cacheRoot cik refresh (row # rows) acc fs =
           fetchLoop env cacheRoot cik refresh rows
             (acc\<lparr> a_fetchedCount := a_fetchedCount acc + 1,
                   a_docs := a_docs acc @ [cachedDoc row p] \<rparr>) fs1"
  | (skipped) e msg where "refresh \<or> fileExists fs p = Inr False"
      and "fetchAndStore env cik row p fs = Inl e" and "notFoundMessage e = Some msg"
      and "fetchLoop env cacheRoot cik refresh (row # rows) acc fs =
           fetchLoop env cacheRoot cik refresh rows
             (acc\<lparr> a_skipped := a_skipped acc @ [(row_accession row, msg)] \<rparr>) fs"
  | (aborted) e where "refresh \<or> fileExists fs p = Inr False"
      and "fetchAndStore env cik row p fs = Inl e" and "notFoundMessage e = None"
      and "fetchLoop env cacheRoot cik refresh (row # rows) acc fs = (Inl e, fs)"
proof -
  have unf: "fetchLoop env cacheRoot cik refresh (row # rows) acc fs =
     (case (if refresh then Inr False else fileExists fs p) of
        Inl e \<Rightarrow> (Inl e, fs)
      | Inr shouldUseCache \<Rightarrow>
          (if \<not> shouldUseCache then
             (case fetchAndStore env cik row p fs of
                Inr fs' \<Rightarrow>
                  fetchLoop env cacheRoot cik refresh rows
                    (acc\<lparr> a_fetchedCount := a_fetchedCount acc + 1,
                          a_docs := a_docs acc @ [cachedDoc row p] \<rparr>) fs'
              | Inl e \<Rightarrow>
                  (case notFoundMessage e of
                     Some msg \<Rightarrow>
                       fetchLoop env cacheRoot cik refresh rows
                         (acc\<lparr> a_skipped := a_skipped acc @ [(row_accession row, msg)] \<rparr>) fs
                   | None \<Rightarrow> (Inl e, fs)))
           else
             fetchLoop env cacheRoot cik refresh rows
               (acc\<lparr> a_reusedCount := a_reusedCount acc + 1,
                     a_docs := a_docs acc @ [cachedDoc row p] \<rparr>) fs))"
    unfolding p_def by (simp only: fetchLoop.simps Let_def)
  show ?thesis
  proof (cases "refresh \<or> fileExists fs p = Inr False")
    case True
    then have use: "(if refresh then Inr False else fileExists fs p) = Inr False"
      by auto
    show ?thesis
    proof (cases "fetchAndStore env cik row p fs")
      case (Inr fs1)
      show ?thesis
        by (rule fetched [OF True Inr]) (simp only: unf use Inr sum.case simp_thms if_True)
    next
      case (Inl e)
      show ?thesis
      proof (cases "notFoundMessage e")
        case None
        show ?thesis
          by (rule aborted [OF True Inl None])
            (simp only: unf use Inl None sum.case option.case simp_thms if_True)
      next
        case (Some msg)
        show ?thesis
          by (rule skipped [OF True Inl Some])
            (simp only: unf use Inl Some sum.case option.case simp_thms if_True)
      qed
    qed
  next
    case False
    then have nr: "\<not> refresh" and ne: "fileExists fs p \<noteq> Inr False"
      by simp_all
    have use: "(if refresh then Inr False else fileExists fs p) = fileExists fs p"
      using nr by simp
    show ?thesis
    proof (cases "fileExists fs p")
      case (Inl e)
      show ?thesis
        by (rule stat_fails [OF nr Inl]) (subst unf, simp only: nr Inl sum.case if_False)
    next
      case (Inr b)
      with ne have t: "fileExists fs p = Inr True"
        by (cases b) simp_all
      show ?thesis
        by (rule reused [OF nr t]) (subst unf, simp only: nr t sum.case simp_thms if_False)
    qed
  qed
qed



lemma fetchLoop_counts:
  "fetchLoop env cacheRoot cik refresh rows acc fs = (Inr acc', fs') \<Longrightarrow>
     length (a_docs acc') + (a_fetchedCount acc + a_reusedCount acc) =
       length (a_docs acc) + (a_fetchedCount acc' + a_reusedCount acc') \<and>
     length (a_docs acc') + length (a_skipped acc') =
       length (a_docs acc) + length (a_skipped acc) + length rows"
proof (induction rows arbitrary: acc fs)
  case Nil
  then show ?case by simp
next
  case (Cons row rows)
  show ?case
  proof (cases rule: fetchLoop_Cons_cases [where env=env and cacheRoot=cacheRoot and cik=cik
        and refresh=refresh and row=row and rows=rows and acc=acc and fs=fs])
    case (stat_fails e)
    then show ?thesis using Cons.prems by simp
  next
    case reused
    then show ?thesis using Cons.prems Cons.IH [of _ fs] by fastforce
  next
    case (fetched fs1)
    then show ?thesis using Cons.prems Cons.IH [of _ fs1] by fastforce
  next
    case (skipped e msg)
    then show ?thesis using Cons.prems Cons.IH [of _ fs] by fastforce
  next
    case (aborted e)
    then show ?thesis using Cons.prems by simp
  qed
qed

lemma fetchLoop_disjoint:
  "fetchLoop env cacheRoot cik refresh rows acc fs = (Inr acc', fs') \<Longrightarrow>
   distinct (map row_accession rows) \<Longrightarrow>
   set (map doc_accession (a_docs acc)) \<inter> set (map fst (a_skipped acc)) = {} \<Longrightarrow>
   set (map row_accession rows) \<inter>
     (set (map doc_accession (a_docs acc)) \<union> set (map fst (a_skipped acc))) = {} \<Longrightarrow>
   set (map doc_accession (a_docs acc')) \<inter> set (map fst (a_skipped acc')) = {}"
proof (induction rows arbitrary: acc fs)
  case Nil
  then show ?case by simp
next
  case (Cons row rows)
  let ?p = "filingDocPath cacheRoot cik (row_accession row)"
  have fresh: "row_accession row \<notin> set (map row_accession rows)"
    and d: "distinct (map row_accession rows)"
    using Cons.prems(2) by simp_all
  have new: "row_accession row \<notin> set (map doc_accession (a_docs acc)) \<union> set (map fst (a_skipped acc))"
    using Cons.prems(4) by auto
  have rest: "set (map row_accession rows) \<inter>
     (set (map doc_accession (a_docs acc)) \<union> set (map fst (a_skipped acc))) = {}"
    using Cons.prems(4) by auto
  have step: "set (map doc_accession (a_docs acc')) \<inter> set (map fst (a_skipped acc')) = {}"
    if run: "fetchLoop env cacheRoot cik refresh rows a fs1 = (Inr acc', fs')"
      and un: "set (map doc_accession (a_docs a)) \<union> set (map fst (a_skipped a)) =
        insert (row_accession row)
          (set (map doc_accession (a_docs acc)) \<union> set (map fst (a_skipped acc)))"
      and dj: "set (map doc_accession (a_docs a)) \<inter> set (map fst (a_skipped a)) = {}"
    for a fs1
  proof -
    have "set (map row_accession rows) \<inter>
        (set (map doc_accession (a_docs a)) \<union> set (map fst (a_skipped a))) = {}"
      unfolding un using fresh rest by auto
    then show ?thesis
      using Cons.IH [OF run d dj] by simp
  qed
  show ?case
  proof (cases rule: fetchLoop_Cons_cases [where env=env and cacheRoot=cacheRoot and cik=cik
        and refresh=refresh and row=row and rows=rows and acc=acc and fs=fs])
    case (stat_fails e)
    then show ?thesis using Cons.prems(1) by simp
  next
    case reused
    show ?thesis
    proof (rule step)
      show "fetchLoop env cacheRoot cik refresh rows
             (acc\<lparr> a_reusedCount := a_reusedCount acc + 1,
                   a_docs := a_docs acc @ [cachedDoc row ?p] \<rparr>) fs = (Inr acc', fs')"
        using reused(3) Cons.prems(1) by simp
    qed (use Cons.prems(3) new in \<open>auto simp: cachedDoc_def\<close>)
  next
    case (fetched fs1)
    show ?thesis
    proof (rule step)
      show "fetchLoop env cacheRoot cik refresh rows
             (acc\<lparr> a_fetchedCount := a_fetchedCount acc + 1,
                   a_docs := a_docs acc @ [cachedDoc row ?p] \<rparr>) fs1 = (Inr acc', fs')"
        using fetched(3) Cons.prems(1) by simp
    qed (use Cons.prems(3) new in \<open>auto simp: cachedDoc_def\<close>)
  next
    case (skipped e msg)
    show ?thesis
    proof (rule step)
      show "fetchLoop env cacheRoot cik refresh rows
             (acc\<lparr> a_skipped := a_skipped acc @ [(row_accession row, msg)] \<rparr>) fs = (Inr acc', fs')"
        using skipped(4) Cons.prems(1) by simp
    qed (use Cons.prems(3) new in auto)
  next
    case (aborted e)
    then show ?thesis using Cons.prems(1) by simp
  qed
qed

lemma find_append:
  "find P (xs @ ys) = (case find P xs of None \<Rightarrow> find P ys | Some x \<Rightarrow> Some x)"
  by (induction xs) auto

lemma firstRuleWins_step:
  assumes "firstRuleWins selected seen"
  shows "firstRuleWins
           (if row_accession row \<in> fst ` set selected then selected
            else selected @ [(row_accession row, row)])
           (seen @ [row])"
proof (cases "row_accession row \<in> fst ` set selected")
  case True
  have old: "find (\<lambda>r'. row_accession r' = a) (seen @ [row]) = Some r"
    if "find (\<lambda>r'. row_accession r' = a) seen = Some r" for a r
    using that by (simp add: find_append)
  show ?thesis
    using assms True unfolding firstRuleWins_def list_all_iff
    by (auto simp: old)
next
  case False
  then have none: "find (\<lambda>r'. row_accession r' = row_accession row) seen = None"
    using assms unfolding firstRuleWins_def
    by (auto simp: find_None_iff image_iff)
  have old: "find (\<lambda>r'. row_accession r' = a) (seen @ [row]) = Some r"
    if "find (\<lambda>r'. row_accession r' = a) seen = Some r" for a r
    using that by (simp add: find_append)
  have new: "find (\<lambda>r'. row_accession r' = row_accession row) (seen @ [row]) = Some row"
    using none by (simp add: find_append)
  show ?thesis
    using assms False unfolding firstRuleWins_def list_all_iff
    by (auto simp: old new)
qed

lemma firstRuleWins_mergeRows:
  "firstRuleWins selected seen \<Longrightarrow> firstRuleWins (mergeRows selected rows) (seen @ rows)"
proof (induction rows arbitrary: selected seen)
  case Nil
  then show ?case by (simp add: mergeRows_def)
next
  case (Cons row rows)
  have "firstRuleWins
          (mergeRows (if row_accession row \<in> fst ` set selected then selected
                      else selected @ [(row_accession row, row)]) rows)
          ((seen @ [row]) @ rows)"
    by (rule Cons.IH [OF firstRuleWins_step [OF Cons.prems]])
  then show ?case
    by (simp add: mergeRows_def)
qed

lemma collectSelection_firstRuleWins:
  "map (listRule env cik) rules = map Inr rowss \<Longrightarrow> firstRuleWins selected seen \<Longrightarrow>
     \<exists>sel. collectSelection env cik rules selected = Inr sel \<and>
           firstRuleWins sel (seen @ concat rowss)"
proof (induction rules arbitrary: rowss selected seen)
  case Nil
  then show ?case by simp
next
  case (Cons rule rules)
  from Cons.prems(1) obtain rows rest where rowss: "rowss = rows # rest"
    and r: "listRule env cik rule = Inr rows"
    and rs: "map (listRule env cik) rules = map Inr rest"
    by (cases rowss) auto
  have "firstRuleWins (mergeRows selected rows) (seen @ rows)"
    using Cons.prems(2) by (rule firstRuleWins_mergeRows)
  from Cons.IH [OF rs this] show ?case
    using r rowss by simp
qed

lemma insort_cmp_cong:
  "(\<And>b. b \<in> set ys \<Longrightarrow> (cmp x b \<le> 0) = (cmp' x b \<le> 0)) \<Longrightarrow>
     insort_cmp cmp x ys = insort_cmp cmp' x ys"
  by (induction ys) auto

lemma js_sort_cong:
  "(\<And>a b. a \<in> set xs \<Longrightarrow> b \<in> set xs \<Longrightarrow> (cmp a b \<le> 0) = (cmp' a b \<le> 0)) \<Longrightarrow>
     js_sort cmp xs = js_sort cmp' xs"
proof (induction xs)
  case Nil
  show ?case by (simp add: js_sort_def)
next
  case (Cons x xs)
  have IH: "js_sort cmp xs = js_sort cmp' xs"
    using Cons.prems by (intro Cons.IH) simp_all
  have "insort_cmp cmp x (js_sort cmp' xs) = insort_cmp cmp' x (js_sort cmp' xs)"
    using Cons.prems by (intro insort_cmp_cong) simp_all
  then show ?case
    using IH by (simp add: js_sort_def)
qed

lemma distinct_map_insort_cmp:
  "distinct (map f (insort_cmp cmp x ys)) = (f x \<notin> f ` set ys \<and> distinct (map f ys))"
  by (induction ys) auto

lemma distinct_map_js_sort: "distinct (map f (js_sort cmp xs)) = distinct (map f xs)"
proof (induction xs)
  case Nil
  show ?case by (simp add: js_sort_def)
next
  case (Cons x xs)
  have "js_sort cmp (x # xs) = insort_cmp cmp x (js_sort cmp xs)"
    by (simp add: js_sort_def)
  then show ?case
    using Cons.IH by (simp add: distinct_map_insort_cmp)
qed

lemma firstRuleWins_rows:
  assumes "firstRuleWins selected seen"
  shows "snd ` set selected \<subseteq> set seen"
    and "distinct (map row_accession (map snd selected))"
proof -
  have key: "find (\<lambda>r'. row_accession r' = a) seen = Some r" if "(a, r) \<in> set selected" for a r
    using assms that unfolding firstRuleWins_def list_all_iff by auto
  show "snd ` set selected \<subseteq> set seen"
  proof
    fix r assume "r \<in> snd ` set selected"
    then obtain a where "(a, r) \<in> set selected" by auto
    then have "find (\<lambda>r'. row_accession r' = a) seen = Some r" by (rule key)
    then show "r \<in> set seen"
      by (auto simp: find_Some_iff)
  qed
  have "\<forall>x \<in> set selected. row_accession (snd x) = fst x"
  proof
    fix x assume "x \<in> set selected"
    then have "find (\<lambda>r'. row_accession r' = fst x) seen = Some (snd x)"
      using key [of "fst x" "snd x"] by simp
    then show "row_accession (snd x) = fst x"
      by (auto simp: find_Some_iff)
  qed
  then have eq: "map row_accession (map snd selected) = map fst selected"
    by simp
  show "distinct (map row_accession (map snd selected))"
    unfolding eq using assms by (simp add: firstRuleWins_def)
qed


text \<open>
  C8. Let every catalogue request of the rules succeed, and let the collation of the
  run-time system order the filing dates that occur as the lexicographic order of strings
  does (as it does for dates of the form \<open>YYYY-MM-DD\<close>). The rules are applied in
  their order and the rows merged into one selection keyed by accession, in which the
  first rule to introduce an accession wins. The selected rows are then sorted by filing
  date, descending in the lexicographic order, a missing date counting as the empty
  string: after a row without a date only rows with an empty date follow.
\<close>

theorem selection_first_rule_wins_sorted:
  assumes lists: "map (listRule env cik) rules = map Inr rowss"
    and coll: "\<forall>x \<in> filingDateOrEmpty ` set (concat rowss).
               \<forall>y \<in> filingDateOrEmpty ` set (concat rowss).
                 (c_localeCompare env x y \<le> 0) = (x \<le> y)"
  shows "\<exists>selected.
     collectSelection env cik rules [] = Inr selected \<and>
     firstRuleWins selected (concat rowss) \<and>
     selectRows env cik rules = Inr (sortSelection env selected) \<and>
     set (sortSelection env selected) = snd ` set selected \<and>
     length (sortSelection env selected) = length selected \<and>
     sorted_wrt (\<lambda>a b. filingDateOrEmpty b \<le> filingDateOrEmpty a) (sortSelection env selected) \<and>
     (\<forall>i j. i < j \<and> j < length (sortSelection env selected) \<and>
            row_filingDate (sortSelection env selected ! i) = None \<longrightarrow>
            filingDateOrEmpty (sortSelection env selected ! j) = [])"
proof -
  have "firstRuleWins [] []"
    by (simp add: firstRuleWins_def)
  with lists obtain selected where sel: "collectSelection env cik rules [] = Inr selected"
    and fw: "firstRuleWins selected ([] @ concat rowss)"
    using collectSelection_firstRuleWins [of env cik rules rowss "[]" "[]"] by blast
  let ?S = "sortSelection env selected"
  let ?cmp = "\<lambda>a b. c_localeCompare env (filingDateOrEmpty b) (filingDateOrEmpty a)"
  let ?lex = "\<lambda>a b. if filingDateOrEmpty b \<le> filingDateOrEmpty a then (0::int) else 1"
  have sub: "snd ` set selected \<subseteq> set (concat rowss)"
    using firstRuleWins_rows(1) [OF fw] by simp
  have "js_sort ?cmp (map snd selected) = js_sort ?lex (map snd selected)"
  proof (rule js_sort_cong)
    fix a b assume "a \<in> set (map snd selected)" and "b \<in> set (map snd selected)"
    then have "a \<in> snd ` set selected" and "b \<in> snd ` set selected"
      by simp_all
    then have "a \<in> set (concat rowss)" and "b \<in> set (concat rowss)"
      using sub by blast+
    then have "filingDateOrEmpty a \<in> filingDateOrEmpty ` set (concat rowss)"
      and "filingDateOrEmpty b \<in> filingDateOrEmpty ` set (concat rowss)"
      by blast+
    then have "(c_localeCompare env (filingDateOrEmpty b) (filingDateOrEmpty a) \<le> 0) =
        (filingDateOrEmpty b \<le> filingDateOrEmpty a)"
      using coll by blast
    then show "(?cmp a b \<le> 0) = (?lex a b \<le> 0)"
      by simp
  qed
  then have S: "?S = js_sort ?lex (map snd selected)"
    by (simp add: sortSelection_def)
  have "sorted_wrt (\<lambda>a b. ?lex a b \<le> 0) (js_sort ?lex (map snd selected))"
    by (rule sorted_js_sort) (auto split: if_splits)
  then have sorted: "sorted_wrt (\<lambda>a b. filingDateOrEmpty b \<le> filingDateOrEmpty a) ?S"
    unfolding S by (rule sorted_wrt_mono_rel [rotated]) (simp split: if_splits)
  have last: "filingDateOrEmpty (?S ! j) = []"
    if "i < j \<and> j < length ?S \<and> row_filingDate (?S ! i) = None" for i j
  proof -
    have ij: "i < j" and j: "j < length ?S"
      using that by simp_all
    have "filingDateOrEmpty (?S ! j) \<le> filingDateOrEmpty (?S ! i)"
      using sorted_wrt_nth_less [OF sorted ij j] .
    moreover have "filingDateOrEmpty (?S ! i) = []"
      using that by (simp add: filingDateOrEmpty_def)
    ultimately show ?thesis by simp
  qed
  have "selectRows env cik rules = Inr ?S"
    using sel by (simp add: selectRows_def)
  moreover have "set ?S = snd ` set selected" and "length ?S = length selected"
    by (simp_all add: sortSelection_def)
  ultimately show ?thesis
    using sel fw sorted last by auto
qed


theorem selection_first_rule_wins_sorted_witness:
  "map (listRule demo_env ''0000320193'') (PROFILE_RULES financials) =
     map Inr [[demo_annual], [demo_quarterly, demo_annual\<lparr> row_form := Some ''10-K/A'' \<rparr>]] \<and>
   (\<exists>selected.
      collectSelection demo_env ''0000320193'' (PROFILE_RULES financials) [] = Inr selected \<and>
      firstRuleWins selected
        (concat [[demo_annual], [demo_quarterly, demo_annual\<lparr> row_form := Some ''10-K/A'' \<rparr>]]) \<and>
      selectRows demo_env ''0000320193'' (PROFILE_RULES financials) =
        Inr (sortSelection demo_env selected) \<and>
      sorted_wrt (\<lambda>a b. filingDateOrEmpty b \<le> filingDateOrEmpty a)
        (sortSelection demo_env selected)) \<and>
   selectRows demo_env ''0000320193'' (PROFILE_RULES financials) =
     Inr [demo_quarterly, demo_annual]"
proof -
  let ?rowss = "[[demo_annual], [demo_quarterly, demo_annual\<lparr> row_form := Some ''10-K/A'' \<rparr>]]"
  have lists: "map (listRule demo_env ''0000320193'') (PROFILE_RULES financials) = map Inr ?rowss"
    by (simp add: listRule_def demo_env_def)
  have coll: "\<forall>x \<in> filingDateOrEmpty ` set (concat ?rowss).
               \<forall>y \<in> filingDateOrEmpty ` set (concat ?rowss).
                 (c_localeCompare demo_env x y \<le> 0) = (x \<le> y)"
    by (simp add: demo_env_def)
  have run: "selectRows demo_env ''0000320193'' (PROFILE_RULES financials) =
     Inr [demo_quarterly, demo_annual]"
    by code_simp
  from selection_first_rule_wins_sorted [OF lists coll] lists run show ?thesis
    by blast
qed


lemma notFoundMessage_Some: "notFoundMessage e = Some msg \<longleftrightarrow> e = CLIError NOT_FOUND msg"
  by (cases e) auto







lemma collectSelection_lists:
  "collectSelection env cik rules selected = Inr sel \<Longrightarrow>
     \<exists>rowss. map (listRule env cik) rules = map Inr rowss"
proof (induction rules arbitrary: selected)
  case Nil
  show ?case by simp
next
  case (Cons rule rules)
  from Cons.prems obtain rows where r: "listRule env cik rule = Inr rows"
    and rest: "collectSelection env cik rules (mergeRows selected rows) = Inr sel"
    by (auto split: sum.splits)
  from Cons.IH [OF rest] obtain rowss where "map (listRule env cik) rules = map Inr rowss"
    by blast
  then have "map (listRule env cik) (rule # rules) = map Inr (rows # rowss)"
    using r by simp
  then show ?case by blast
qed

lemma selectRows_distinct:
  assumes "selectRows env cik rules = Inr selectedRows"
  shows "distinct (map row_accession selectedRows)"
proof -
  from assms obtain sel where sel: "collectSelection env cik rules [] = Inr sel"
    and rows: "selectedRows = sortSelection env sel"
    by (auto simp: selectRows_def split: sum.splits)
  from collectSelection_lists [OF sel] obtain rowss
    where lists: "map (listRule env cik) rules = map Inr rowss"
    by blast
  have "firstRuleWins [] []"
    by (simp add: firstRuleWins_def)
  with lists have "firstRuleWins sel ([] @ concat rowss)"
    using collectSelection_firstRuleWins [of env cik rules rowss "[]" "[]"] sel by auto
  then have "distinct (map row_accession (map snd sel))"
    by (rule firstRuleWins_rows(2))
  then show ?thesis
    unfolding rows sortSelection_def by (simp only: distinct_map_js_sort)
qed

text \<open>
  C10. The report of a completed sync satisfies \<open>docs_count = fetched_count + reused_count\<close>,
  and \<open>docs_count + skipped_count\<close> is the number of selected filings. The manifest that
  the sync has persisted for the entity and the profile reads back with the accessions
  of the report's \<open>docs\<close>, and no accession of a skipped filing is among them.
\<close>

theorem sync_report_invariants:
  assumes run: "fst (runResearchSync env fs ident profile cacheRoot refresh) = Inr report"
  shows "rep_docs_count report = rep_fetched_count report + rep_reused_count report \<and>
     (\<exists>entity selectedRows.
        c_resolveEntity env ident = Inr entity \<and>
        selectRows env (e_cik entity) (PROFILE_RULES profile) = Inr selectedRows \<and>
        rep_docs_count report + rep_skipped_count report = length selectedRows) \<and>
     (\<exists>v ds.
        readCachedManifest (snd (runResearchSync env fs ident profile cacheRoot refresh))
          cacheRoot (rep_cik report) profile = Inr (Some v) \<and>
        field ''docs'' v = Some (JArray ds) \<and>
        map (field ''accession'') ds =
          map (\<lambda>d. Some (JString (doc_accession d))) (rep_docs report) \<and>
        (\<forall>s \<in> set (rep_skipped report).
           Some (JString (fst s)) \<notin> set (map (field ''accession'') ds)))"
proof -
  let ?init = "\<lparr> a_docs = [], a_skipped = [], a_fetchedCount = 0, a_reusedCount = 0 \<rparr>"
  from run obtain entity selectedRows acc fs1 manifestPath fs2
    where resolve: "c_resolveEntity env ident = Inr entity"
      and sel: "selectRows env (e_cik entity) (PROFILE_RULES profile) = Inr selectedRows"
      and loop: "fetchLoop env cacheRoot (e_cik entity) refresh selectedRows ?init fs = (Inr acc, fs1)"
      and wr: "writeCachedManifest fs1 cacheRoot
                 \<lparr> m_id_input = ident, m_cik = e_cik entity, m_ticker = e_ticker entity,
                   m_title = e_title entity, m_profile = profile, m_synced_at = c_nowIso env,
                   m_docs = a_docs acc \<rparr> = Inr (manifestPath, fs2)"
      and out: "runResearchSync env fs ident profile cacheRoot refresh =
                 (Inr \<lparr> rep_id = ident, rep_cik = e_cik entity,
                        rep_ticker = e_ticker entity, rep_title = e_title entity,
                        rep_profile = profile, rep_cache_root = cacheRoot,
                        rep_manifest_path = manifestPath,
                        rep_docs_count = length (a_docs acc),
                        rep_fetched_count = a_fetchedCount acc,
                        rep_reused_count = a_reusedCount acc,
                        rep_skipped_count = length (a_skipped acc),
                        rep_skipped = a_skipped acc, rep_docs = a_docs acc \<rparr>, fs2)"
    by (auto simp: runResearchSync_def Let_def split: sum.splits prod.splits)
  let ?manifest = "\<lparr> m_id_input = ident, m_cik = e_cik entity, m_ticker = e_ticker entity,
                   m_title = e_title entity, m_profile = profile, m_synced_at = c_nowIso env,
                   m_docs = a_docs acc \<rparr>"
  have rep: "rep_docs_count report = length (a_docs acc)"
    "rep_fetched_count report = a_fetchedCount acc"
    "rep_reused_count report = a_reusedCount acc"
    "rep_skipped_count report = length (a_skipped acc)"
    "rep_skipped report = a_skipped acc" "rep_docs report = a_docs acc"
    "rep_cik report = e_cik entity"
    using run unfolding out by auto
  have snd: "snd (runResearchSync env fs ident profile cacheRoot refresh) = fs2"
    unfolding out by simp
  note counts = fetchLoop_counts [OF loop]
  have c1: "rep_docs_count report = rep_fetched_count report + rep_reused_count report"
    using counts unfolding rep by simp
  have c2: "rep_docs_count report + rep_skipped_count report = length selectedRows"
    using counts unfolding rep by simp
  have dis: "set (map doc_accession (a_docs acc)) \<inter> set (map fst (a_skipped acc)) = {}"
    by (rule fetchLoop_disjoint [OF loop selectRows_distinct [OF sel]]) simp_all
  have rd: "readCachedManifest fs2 cacheRoot (e_cik entity) profile =
      Inr (Some (manifestToJson ?manifest))"
    using readCachedManifest_after_write [OF wr] by simp
  have docs: "field ''docs'' (manifestToJson ?manifest) =
      Some (JArray (map docToJson (a_docs acc)))"
    by simp
  have accs: "map (field ''accession'') (map docToJson (a_docs acc)) =
      map (\<lambda>d. Some (JString (doc_accession d))) (a_docs acc)"
    by (simp add: comp_def)
  have notin: "\<forall>s \<in> set (a_skipped acc).
      Some (JString (fst s)) \<notin> set (map (field ''accession'') (map docToJson (a_docs acc)))"
    unfolding accs using dis by auto
  show ?thesis
    unfolding snd rep using c1 c2 resolve sel rd docs accs notin
    unfolding rep by blast
qed


theorem sync_report_invariants_witness:
  "fst (runResearchSync demo_env no_files ''AAPL'' financials ''/cache'' True) = Inr demo_report \<and>
   rep_docs_count demo_report = rep_fetched_count demo_report + rep_reused_count demo_report \<and>
   (\<exists>entity selectedRows.
      c_resolveEntity demo_env ''AAPL'' = Inr entity \<and>
      selectRows demo_env (e_cik entity) (PROFILE_RULES financials) = Inr selectedRows \<and>
      rep_docs_count demo_report + rep_skipped_count demo_report = length selectedRows) \<and>
   (\<exists>v ds.
      readCachedManifest (snd (runResearchSync demo_env no_files ''AAPL'' financials ''/cache'' True))
        ''/cache'' (rep_cik demo_report) financials = Inr (Some v) \<and>
      field ''docs'' v = Some (JArray ds) \<and>
      map (field ''accession'') ds =
        map (\<lambda>d. Some (JString (doc_accession d))) (rep_docs demo_report) \<and>
      (\<forall>s \<in> set (rep_skipped demo_report).
         Some (JString (fst s)) \<notin> set (map (field ''accession'') ds)))"
proof -
  have run: "fst (runResearchSync demo_env no_files ''AAPL'' financials ''/cache'' True) =
      Inr demo_report"
    by code_simp
  show ?thesis
    using run sync_report_invariants [OF run] by (intro conjI) blast+
qed

section \<open>The chunks and statistics of a search\<close>

text \<open>The candidate chunks of a search are the chunks of the documents read, in the
  order of the paths.\<close>

lemma readDocs_chunks:
  "readDocs fs chunkLines chunkOverlap ps = Inr ds \<Longrightarrow>
     \<exists>contents. length contents = length ps \<and>
       map (ensureReadableTextFile fs) ps = map Inr contents \<and>
       concat (map d_chunks ds) = collectChunks (zip ps contents) chunkLines chunkOverlap"
proof (induction ps arbitrary: ds)
  case Nil
  then show ?case by (simp add: collectChunks_def)
next
  case (Cons p ps)
  from Cons.prems obtain content rest where c: "ensureReadableTextFile fs p = Inr content"
    and r: "readDocs fs chunkLines chunkOverlap ps = Inr rest"
    and ds: "ds = loadDoc chunkLines chunkOverlap p content # rest"
    by (auto split: sum.splits)
  from Cons.IH [OF r] obtain contents where len: "length contents = length ps"
    and reads: "map (ensureReadableTextFile fs) ps = map Inr contents"
    and ch: "concat (map d_chunks rest) = collectChunks (zip ps contents) chunkLines chunkOverlap"
    by blast
  have "length (content # contents) = length (p # ps)"
    using len by simp
  moreover have "map (ensureReadableTextFile fs) (p # ps) = map Inr (content # contents)"
    using c reads by simp
  moreover have "concat (map d_chunks ds) =
      collectChunks (zip (p # ps) (content # contents)) chunkLines chunkOverlap"
    using ch unfolding ds by (simp add: collectChunks_def loadDoc_def)
  ultimately show ?case by blast
qed

text \<open>The document frequency that a search computes for a term is at most the number
  of candidate chunks.\<close>

lemma docFrequencyByTerm_le:
  "getOr0 (docFrequencyByTerm queryTerms allChunks) t \<le> length allChunks"
proof (cases "t \<in> set queryTerms")
  case True
  then show ?thesis
    by (simp add: getOr0_docFrequencyByTerm)
next
  case False
  then have "getOr0 (docFrequencyByTerm queryTerms allChunks) t = 0"
    unfolding docFrequencyByTerm_def by (simp add: docFrequencyByTerm_foldl)
  then show ?thesis by simp
qed

text \<open>Within a document the chunks come in line order.\<close>

lemma chunkLoop_lineStart_above:
  "c \<in> set (chunkLoop p acc lines chunkLines chunkOverlap lineIdx) \<Longrightarrow> lineIdx < lineStart c"
proof (induction "length lines - lineIdx" arbitrary: lineIdx rule: less_induct)
  case less
  let ?step = "stepOf chunkLines chunkOverlap"
  let ?E = "min (length lines) (lineIdx + chunkLines)"
  let ?txt = "trim (joinLines (slice lineIdx ?E lines))"
  let ?rest = "if ?E \<ge> length lines then []
               else chunkLoop p acc lines chunkLines chunkOverlap (lineIdx + ?step)"
  have step: "0 < ?step"
    by (simp add: stepOf_def)
  have lt: "lineIdx < length lines"
    using less.prems by (subst (asm) chunkLoop.simps) (simp split: if_splits)
  have unf: "chunkLoop p acc lines chunkLines chunkOverlap lineIdx =
      (if length ?txt = 0 then ?rest else mkChunk p acc lineIdx ?E ?txt # ?rest)"
    using lt by (subst chunkLoop.simps) (simp add: Let_def)
  have rest: "lineIdx < lineStart c" if "c \<in> set ?rest"
  proof -
    from that have far: "\<not> ?E \<ge> length lines"
      and mem: "c \<in> set (chunkLoop p acc lines chunkLines chunkOverlap (lineIdx + ?step))"
      by (simp_all split: if_splits)
    have "length lines - (lineIdx + ?step) < length lines - lineIdx"
      using lt step by simp
    from less.hyps [OF this mem] show ?thesis
      by simp
  qed
  from less.prems have "c = mkChunk p acc lineIdx ?E ?txt \<or> c \<in> set ?rest"
    unfolding unf by (simp split: if_splits)
  then show ?case
    using rest by auto
qed

lemma chunkLoop_line_order:
  "sorted_wrt (\<lambda>a b. lineStart a < lineStart b)
     (chunkLoop p acc lines chunkLines chunkOverlap lineIdx)"
proof (induction "length lines - lineIdx" arbitrary: lineIdx rule: less_induct)
  case less
  let ?step = "stepOf chunkLines chunkOverlap"
  let ?E = "min (length lines) (lineIdx + chunkLines)"
  let ?txt = "trim (joinLines (slice lineIdx ?E lines))"
  let ?rest = "if ?E \<ge> length lines then []
               else chunkLoop p acc lines chunkLines chunkOverlap (lineIdx + ?step)"
  have step: "0 < ?step"
    by (simp add: stepOf_def)
  show ?case
  proof (cases "lineIdx < length lines")
    case False
    then show ?thesis
      by (subst chunkLoop.simps) simp
  next
    case True
    have unf: "chunkLoop p acc lines chunkLines chunkOverlap lineIdx =
        (if length ?txt = 0 then ?rest else mkChunk p acc lineIdx ?E ?txt # ?rest)"
      using True by (subst chunkLoop.simps) (simp add: Let_def)
    have "length lines - (lineIdx + ?step) < length lines - lineIdx"
      using True step by simp
    then have srest: "sorted_wrt (\<lambda>a b. lineStart a < lineStart b) ?rest"
      using less.hyps by simp
    have above: "lineStart (mkChunk p acc lineIdx ?E ?txt) < lineStart c" if "c \<in> set ?rest" for c
    proof -
      from that have "c \<in> set (chunkLoop p acc lines chunkLines chunkOverlap (lineIdx + ?step))"
        by (simp split: if_splits)
      then have "lineIdx + ?step < lineStart c"
        by (rule chunkLoop_lineStart_above)
      then show ?thesis
        using step by simp
    qed
    show ?thesis
      unfolding unf using srest above by simp
  qed
qed

lemma chunkDocument_line_order:
  "sorted_wrt (\<lambda>a b. lineStart a < lineStart b) (chunkDocument p content chunkLines chunkOverlap)"
  unfolding chunkDocument_def by (rule chunkLoop_line_order)

end
